theory Spec2Isabelle
  imports Main "HOL-Library.Sublist"
begin

section \<open>Values of the request payload\<close>

text \<open>
  The board arrives as the \<open>board\<close> member of a parsed JSON body, so it can be any
  JavaScript value that \<open>JSON.parse\<close> produces, or \<open>undefined\<close> when the member is
  missing. Numbers are modelled by integers: the engine only ever compares a cell with
  \<open>=== 1\<close> and \<open>=== 0\<close>, so every other number behaves like \<open>JNum 2\<close>.
  An object is the list of its own properties.
\<close>

datatype jsval =
    JUndefined
  | JNull
  | JBool bool
  | JNum int
  | JStr string
  | JArr "jsval list"
  | JObj "(string \<times> jsval) list"

text \<open>The only exception the engine can raise is the \<open>TypeError\<close> of reading a property
  of \<open>undefined\<close> or \<open>null\<close>, of calling something that is not a function, or of
  spreading something that is not iterable.\<close>

datatype exn = TypeError

type_synonym 'a js = "exn + 'a"

type_synonym coord = "int \<times> int"

section \<open>Game constants\<close>

definition BOARD_SIZE :: int where
  "BOARD_SIZE = 10"

definition BLOCK_COUNT :: nat where
  "BLOCK_COUNT = 10"

section \<open>Property access\<close>

fun digitChar :: "nat \<Rightarrow> char" where
  "digitChar n = (''0123456789'' ! (n mod 10))"

fun decimalNat :: "nat \<Rightarrow> string" where
  "decimalNat n = (if n < 10 then [digitChar n] else decimalNat (n div 10) @ [digitChar n])"

declare decimalNat.simps [simp del]

definition decimal :: "int \<Rightarrow> string" where
  "decimal i = (if i < 0 then CHR ''-'' # decimalNat (nat (- i)) else decimalNat (nat i))"

text \<open>\<open>getIdx v i\<close> is the expression \<open>v[i]\<close> for an integer \<open>i\<close>: an array element, or
  \<open>undefined\<close> outside the array; one character of a string; the property named by the
  decimal numeral on an object; \<open>undefined\<close> on a number or a boolean; and a
  \<open>TypeError\<close> on \<open>undefined\<close> and \<open>null\<close>.\<close>

fun getIdx :: "jsval \<Rightarrow> int \<Rightarrow> jsval js" where
  "getIdx JUndefined i = Inl TypeError"
| "getIdx JNull i = Inl TypeError"
| "getIdx (JBool b) i = Inr JUndefined"
| "getIdx (JNum n) i = Inr JUndefined"
| "getIdx (JStr s) i =
     Inr (if 0 \<le> i \<and> nat i < length s then JStr [s ! nat i] else JUndefined)"
| "getIdx (JArr xs) i =
     Inr (if 0 \<le> i \<and> nat i < length xs then xs ! nat i else JUndefined)"
| "getIdx (JObj kvs) i =
     Inr (case map_of kvs (decimal i) of None \<Rightarrow> JUndefined | Some v \<Rightarrow> v)"

text \<open>\<open>getCell board r c\<close> is \<open>board[r][c]\<close>.\<close>

definition getCell :: "jsval \<Rightarrow> int \<Rightarrow> int \<Rightarrow> jsval js" where
  "getCell board r c =
     (case getIdx board r of Inl e \<Rightarrow> Inl e | Inr row \<Rightarrow> getIdx row c)"

section \<open>Game logic helper functions\<close>

definition isValidCoord :: "int \<Rightarrow> int \<Rightarrow> bool" where
  "isValidCoord r c = (r \<ge> 0 \<and> r < BOARD_SIZE \<and> c \<ge> 0 \<and> c < BOARD_SIZE)"

text \<open>The two nested counting loops of \<open>findBlocks\<close> visit the coordinates in row-major
  order; \<open>scanCells\<close> is the loop body run over that sequence, \<open>blocks\<close> being the array
  that \<open>push\<close> extends.\<close>

definition indices :: "int list" where
  "indices = [0..BOARD_SIZE - 1]"

definition scanOrder :: "coord list" where
  "scanOrder = List.product indices indices"

fun scanCells :: "jsval \<Rightarrow> coord list \<Rightarrow> coord list \<Rightarrow> coord list js" where
  "scanCells board [] blocks = Inr blocks"
| "scanCells board ((r, c) # rest) blocks =
     (case getCell board r c of
        Inl e \<Rightarrow> Inl e
      | Inr v \<Rightarrow> scanCells board rest (if v = JNum 1 then blocks @ [(r, c)] else blocks))"

definition findBlocks :: "jsval \<Rightarrow> coord list js" where
  "findBlocks board = scanCells board scanOrder []"

text \<open>The four neighbours, in the order of the source's array literal.\<close>

definition neighbors :: "int \<Rightarrow> int \<Rightarrow> coord list" where
  "neighbors r c = [(r - 1, c), (r + 1, c), (r, c - 1), (r, c + 1)]"

text \<open>The inner \<open>for\<close> loop of the traversal. The \<open>visited\<close> set is keyed by the string
  \<open>r,c\<close>, which determines the pair of integers, so it is a set of coordinates.\<close>

fun visitNeighbors ::
  "jsval \<Rightarrow> coord list \<Rightarrow> coord list \<Rightarrow> coord set \<Rightarrow> (coord list \<times> coord set) js" where
  "visitNeighbors board [] queue visited = Inr (queue, visited)"
| "visitNeighbors board ((nr, nc) # rest) queue visited =
     (if isValidCoord nr nc then
        (case getCell board nr nc of
           Inl e \<Rightarrow> Inl e
         | Inr v \<Rightarrow>
             if v = JNum 1 \<and> (nr, nc) \<notin> visited
             then visitNeighbors board rest (queue @ [(nr, nc)]) (insert (nr, nc) visited)
             else visitNeighbors board rest queue visited)
      else visitNeighbors board rest queue visited)"

text \<open>The coordinates of the board, as a set.\<close>

definition validCoords :: "coord set" where
  "validCoords = {0..BOARD_SIZE - 1} \<times> {0..BOARD_SIZE - 1}"

text \<open>The \<open>while\<close> loop of the traversal: \<open>shift\<close> takes the head of the queue, the
  counter is incremented, and the neighbours are examined.\<close>

function bfsLoop :: "jsval \<Rightarrow> coord list \<Rightarrow> coord set \<Rightarrow> nat \<Rightarrow> nat js" where
  "bfsLoop board [] visited count = Inr count"
| "bfsLoop board ((r, c) # queue) visited count =
     (case visitNeighbors board (neighbors r c) queue visited of
        Inl e \<Rightarrow> Inl e
      | Inr (queue', visited') \<Rightarrow> bfsLoop board queue' visited' (count + 1))"
  by pat_completeness auto

text \<open>The loop ends: every round takes one cell off the queue, and a cell is added to
  the queue only when it is a board coordinate that was not visited before.\<close>

termination
proof (relation "measure (\<lambda>(board, queue, visited, count).
          2 * card (validCoords - visited) + length queue)", goal_cases)
  case 1
  show ?case by simp
next
  case (2 board r c queue visited count x2 queue' visited')
  have grows: "\<exists>new. q' = q @ new \<and> v' = v \<union> set new \<and> distinct new
                 \<and> set new \<inter> v = {} \<and> set new \<subseteq> validCoords"
    if "visitNeighbors b ns q v = Inr (q', v')" for b ns q v q' v'
    using that
  proof (induction b ns q v rule: visitNeighbors.induct)
    case (1 b q v)
    then show ?case by simp
  next
    case (2 b nr nc rest q v)
    show ?case
    proof (cases "isValidCoord nr nc")
      case False
      with 2 show ?thesis by simp
    next
      case True
      then obtain x where x: "getCell b nr nc = Inr x"
        using "2.prems" by (cases "getCell b nr nc") auto
      show ?thesis
      proof (cases "x = JNum 1 \<and> (nr, nc) \<notin> v")
        case False
        with 2 True x show ?thesis by auto
      next
        case push: True
        with "2.prems" True x
        have "visitNeighbors b rest (q @ [(nr, nc)]) (insert (nr, nc) v) = Inr (q', v')"
          by simp
        from "2.IH"(1) [OF True x push this]
        obtain new where new: "q' = (q @ [(nr, nc)]) @ new"
          "v' = insert (nr, nc) v \<union> set new" "distinct new"
          "set new \<inter> insert (nr, nc) v = {}" "set new \<subseteq> validCoords"
          by blast
        have "q' = q @ ((nr, nc) # new)" using new(1) by simp
        moreover have "v' = v \<union> set ((nr, nc) # new)" using new(2) by auto
        moreover have "distinct ((nr, nc) # new)" using new(3,4) by auto
        moreover have "set ((nr, nc) # new) \<inter> v = {}" using new(4) push by auto
        moreover have "set ((nr, nc) # new) \<subseteq> validCoords"
          using new(5) True by (auto simp: validCoords_def isValidCoord_def)
        ultimately show ?thesis by blast
      qed
    qed
  qed
  from 2 have "visitNeighbors board (neighbors r c) queue visited = Inr (queue', visited')"
    by simp
  from grows [OF this]
  obtain new where new: "queue' = queue @ new" "visited' = visited \<union> set new"
    "distinct new" "set new \<inter> visited = {}" "set new \<subseteq> validCoords"
    by blast
  have sub: "set new \<subseteq> validCoords - visited" using new(4,5) by auto
  have eq: "validCoords - visited' = (validCoords - visited) - set new"
    using new(2) by auto
  have fin: "finite (validCoords - visited)" by (simp add: validCoords_def)
  have "card (validCoords - visited') = card (validCoords - visited) - card (set new)"
    unfolding eq using sub fin by (simp add: card_Diff_subset finite_subset)
  moreover have "card (set new) = length new" using new(3) by (simp add: distinct_card)
  moreover have "card (set new) \<le> card (validCoords - visited)"
    using sub fin by (simp add: card_mono)
  ultimately show ?case using new(1) by simp
qed

definition countConnectedBlocks :: "jsval \<Rightarrow> coord option \<Rightarrow> nat js" where
  "countConnectedBlocks board startNode =
     (case startNode of
        None \<Rightarrow> Inr 0
      | Some s \<Rightarrow> bfsLoop board [s] {s} 0)"

section \<open>Board validation\<close>

text \<open>The three messages that \<open>validateBoard\<close> can return; the specification calls them
  \<open>MalformedShape\<close>, \<open>WrongBlockCount\<close> and \<open>Disconnected\<close>. The second is the
  template literal with \<open>BLOCK_COUNT\<close> filled in.\<close>

definition MalformedShape :: string where
  "MalformedShape = ''Board must be a 10x10 array.''"

definition WrongBlockCount :: string where
  "WrongBlockCount = ''Board must have exactly '' @ decimal (int BLOCK_COUNT) @ '' blocks.''"

definition Disconnected :: string where
  "Disconnected = ''All blocks must form a single, continuous shape.''"

fun isArray :: "jsval \<Rightarrow> bool" where
  "isArray (JArr xs) = True"
| "isArray v = False"

fun elems :: "jsval \<Rightarrow> jsval list" where
  "elems (JArr xs) = xs"
| "elems v = []"

text \<open>The callback of \<open>board.some\<close>.\<close>

definition badRow :: "jsval \<Rightarrow> bool" where
  "badRow r = (\<not> isArray r \<or> int (length (elems r)) \<noteq> BOARD_SIZE)"

text \<open>\<open>blocks[0]\<close>: the first block, or \<open>undefined\<close> (no start node) on an empty array.\<close>

definition firstBlock :: "coord list \<Rightarrow> coord option" where
  "firstBlock blocks = (case blocks of [] \<Rightarrow> None | b # rest \<Rightarrow> Some b)"

text \<open>The result \<open>Inr None\<close> is the source's \<open>null\<close>: the board is valid.\<close>

definition validateBoard :: "jsval \<Rightarrow> string option js" where
  "validateBoard board =
     (if \<not> isArray board \<or> int (length (elems board)) \<noteq> BOARD_SIZE
           \<or> list_ex badRow (elems board)
      then Inr (Some MalformedShape)
      else
        (case findBlocks board of
           Inl e \<Rightarrow> Inl e
         | Inr blocks \<Rightarrow>
             if length blocks \<noteq> BLOCK_COUNT then Inr (Some WrongBlockCount)
             else
               (case countConnectedBlocks board (firstBlock blocks) of
                  Inl e \<Rightarrow> Inl e
                | Inr n \<Rightarrow>
                    if n \<noteq> BLOCK_COUNT then Inr (Some Disconnected) else Inr None)))"

section \<open>Move enumeration\<close>

text \<open>A move \<open>{from, to}\<close>: the block to lift and the cells where it may be put down.\<close>

datatype move = Move (moveFrom: coord) (moveTo: "coord list")

text \<open>\<open>[...row]\<close> copies an array, splits a string into its characters, and raises a
  \<open>TypeError\<close> on every other JSON value, none of which is iterable.\<close>

fun spread :: "jsval \<Rightarrow> jsval list js" where
  "spread (JArr xs) = Inr xs"
| "spread (JStr s) = Inr (map (\<lambda>ch. JStr [ch]) s)"
| "spread v = Inl TypeError"

fun spreadAll :: "jsval list \<Rightarrow> jsval list list js" where
  "spreadAll [] = Inr []"
| "spreadAll (row # rows) =
     (case spread row of
        Inl e \<Rightarrow> Inl e
      | Inr cells \<Rightarrow>
          (case spreadAll rows of Inl e \<Rightarrow> Inl e | Inr rest \<Rightarrow> Inr (cells # rest)))"

text \<open>\<open>board.map(row => [...row])\<close>: only an array has a \<open>map\<close> method to call.\<close>

definition copyBoard :: "jsval \<Rightarrow> jsval list list js" where
  "copyBoard board = (case board of JArr rows \<Rightarrow> spreadAll rows | v \<Rightarrow> Inl TypeError)"

text \<open>\<open>xs[i] = v\<close> on an array: inside the array the element is replaced; beyond its end
  the array is extended, the gap reading as \<open>undefined\<close>; a negative \<open>i\<close> names a
  property that is not an element, so the elements stay as they are.\<close>

definition arrSet :: "jsval list \<Rightarrow> int \<Rightarrow> jsval \<Rightarrow> jsval list" where
  "arrSet xs i v =
     (if i < 0 then xs
      else if nat i < length xs then xs[nat i := v]
      else xs @ replicate (nat i - length xs) JUndefined @ [v])"

text \<open>\<open>tempBoard[r][c] = 0\<close> on the fresh copy, whose rows are all arrays; a row that
  does not exist is \<open>undefined\<close>, and assigning to its property raises.\<close>

definition clearCell :: "jsval list list \<Rightarrow> int \<Rightarrow> int \<Rightarrow> jsval js" where
  "clearCell rows r c =
     (if 0 \<le> r \<and> nat r < length rows
      then Inr (JArr (map JArr (rows[nat r := arrSet (rows ! nat r) c (JNum 0)])))
      else Inl TypeError)"

text \<open>\<open>validDestinations\<close> is a \<open>Set\<close> of keys \<open>r,c\<close>, read back in insertion order and
  parsed into coordinates again: a duplicate-free sequence of coordinates.\<close>

definition addKey :: "coord \<Rightarrow> coord list \<Rightarrow> coord list" where
  "addKey k dests = (if k \<in> set dests then dests else dests @ [k])"

fun collectNeighbors :: "jsval \<Rightarrow> coord list \<Rightarrow> coord list \<Rightarrow> coord list js" where
  "collectNeighbors tempBoard [] dests = Inr dests"
| "collectNeighbors tempBoard ((nr, nc) # rest) dests =
     (if isValidCoord nr nc then
        (case getCell tempBoard nr nc of
           Inl e \<Rightarrow> Inl e
         | Inr v \<Rightarrow>
             collectNeighbors tempBoard rest
               (if v = JNum 0 then addKey (nr, nc) dests else dests))
      else collectNeighbors tempBoard rest dests)"

fun collectDestinations :: "jsval \<Rightarrow> coord list \<Rightarrow> coord list \<Rightarrow> coord list js" where
  "collectDestinations tempBoard [] dests = Inr dests"
| "collectDestinations tempBoard ((r, c) # others) dests =
     (case collectNeighbors tempBoard (neighbors r c) dests of
        Inl e \<Rightarrow> Inl e
      | Inr dests' \<Rightarrow> collectDestinations tempBoard others dests')"

text \<open>The body of the loop over the blocks, for one block, once the working copy
  \<open>tempBoard\<close> exists: the bridge test and the search for destinations. These
  statements only read the working copy.\<close>

definition movesOnTemp :: "jsval \<Rightarrow> coord \<Rightarrow> move list js" where
  "movesOnTemp tempBoard block =
     (case findBlocks tempBoard of
        Inl e \<Rightarrow> Inl e
      | Inr remainingBlocks \<Rightarrow>
     (case countConnectedBlocks tempBoard (firstBlock remainingBlocks) of
        Inl e \<Rightarrow> Inl e
      | Inr n \<Rightarrow>
          if n = length remainingBlocks then
            (case collectDestinations tempBoard remainingBlocks [] of
               Inl e \<Rightarrow> Inl e
             | Inr validDestinations \<Rightarrow>
                 Inr (if length validDestinations > 0
                      then [Move block validDestinations] else []))
          else Inr []))"

text \<open>The whole loop body: build the working copy without the block, then examine it.
  The result is the list of moves that the body pushes, none or one.\<close>

definition movesOfBlock :: "jsval \<Rightarrow> coord \<Rightarrow> move list js" where
  "movesOfBlock board block =
     (case copyBoard board of
        Inl e \<Rightarrow> Inl e
      | Inr rows \<Rightarrow>
     (case clearCell rows (fst block) (snd block) of
        Inl e \<Rightarrow> Inl e
      | Inr tempBoard \<Rightarrow> movesOnTemp tempBoard block))"

fun movesLoop :: "jsval \<Rightarrow> coord list \<Rightarrow> move list \<Rightarrow> move list js" where
  "movesLoop board [] allMoves = Inr allMoves"
| "movesLoop board (block # rest) allMoves =
     (case movesOfBlock board block of
        Inl e \<Rightarrow> Inl e
      | Inr ms \<Rightarrow> movesLoop board rest (allMoves @ ms))"

definition findAllValidMoves :: "jsval \<Rightarrow> move list js" where
  "findAllValidMoves board =
     (case findBlocks board of
        Inl e \<Rightarrow> Inl e
      | Inr blocks \<Rightarrow> movesLoop board blocks [])"

section \<open>The board as an object in the store\<close>

text \<open>
  The functions above treat the board as a value. In the source it is a reference: an
  array whose elements are references to row arrays, and the working copy of the move
  enumeration is made by \<open>board.map(row => [...row])\<close>, which allocates a new outer
  array and one new array per row before \<open>tempBoard[block.r][block.c] = 0\<close> writes
  into one of them. Whether the caller's board survives depends on that copy being deep
  enough, so the two statements are modelled once more on an explicit store.

  The store holds the row arrays and the board arrays, each addressed by its position;
  allocation appends. It covers the boards that are arrays of arrays: every other payload
  is turned away by the first test of \<open>validateBoard\<close>, which only reads. Two elements
  of a board array may hold the same row address (aliased rows).
\<close>

type_synonym addr = nat

record store =
  rowArrays :: "jsval list list"
  boardArrays :: "addr list list"

text \<open>A board reference is live when it and all the rows it refers to are allocated.\<close>

definition allocated :: "store \<Rightarrow> addr \<Rightarrow> bool" where
  "allocated s board =
     (board < length (boardArrays s)
      \<and> list_all (\<lambda>a. a < length (rowArrays s)) (boardArrays s ! board))"

text \<open>The JSON value that a live board reference denotes.\<close>

definition load :: "store \<Rightarrow> addr \<Rightarrow> jsval" where
  "load s board = JArr (map (\<lambda>a. JArr (rowArrays s ! a)) (boardArrays s ! board))"

text \<open>The callback \<open>row => [...row]\<close> run over the rows: each call allocates a new row
  array with the same cells. A dangling reference reads as \<open>undefined\<close>, which is not
  iterable.\<close>

fun copyRows_st :: "store \<Rightarrow> addr list \<Rightarrow> (addr list \<times> store) js" where
  "copyRows_st s [] = Inr ([], s)"
| "copyRows_st s (row # rows) =
     (if row < length (rowArrays s) then
        (case copyRows_st (s\<lparr>rowArrays := rowArrays s @ [rowArrays s ! row]\<rparr>) rows of
           Inl e \<Rightarrow> Inl e
         | Inr (copies, s') \<Rightarrow> Inr (length (rowArrays s) # copies, s'))
      else Inl TypeError)"

text \<open>\<open>board.map(...)\<close>: the new outer array holds the references to the new rows.\<close>

definition copyBoard_st :: "store \<Rightarrow> addr \<Rightarrow> (addr \<times> store) js" where
  "copyBoard_st s board =
     (if board < length (boardArrays s) then
        (case copyRows_st s (boardArrays s ! board) of
           Inl e \<Rightarrow> Inl e
         | Inr (copies, s') \<Rightarrow>
             Inr (length (boardArrays s'), s'\<lparr>boardArrays := boardArrays s' @ [copies]\<rparr>))
      else Inl TypeError)"

text \<open>\<open>tempBoard[r][c] = 0\<close>: the row array that \<open>tempBoard[r]\<close> refers to is updated
  in place.\<close>

definition clearCell_st :: "store \<Rightarrow> addr \<Rightarrow> int \<Rightarrow> int \<Rightarrow> store js" where
  "clearCell_st s tempBoard r c =
     (if tempBoard < length (boardArrays s) \<and> 0 \<le> r
           \<and> nat r < length (boardArrays s ! tempBoard)
           \<and> boardArrays s ! tempBoard ! nat r < length (rowArrays s)
      then
        (let a = boardArrays s ! tempBoard ! nat r
         in Inr (s\<lparr>rowArrays := (rowArrays s)[a := arrSet (rowArrays s ! a) c (JNum 0)]\<rparr>))
      else Inl TypeError)"

text \<open>The loop body on the store. The statements after the write only read the working
  copy, so they are \<open>movesOnTemp\<close> on the value it denotes.\<close>

definition movesOfBlock_st :: "store \<Rightarrow> addr \<Rightarrow> coord \<Rightarrow> (move list \<times> store) js" where
  "movesOfBlock_st s board block =
     (case copyBoard_st s board of
        Inl e \<Rightarrow> Inl e
      | Inr (tempBoard, s1) \<Rightarrow>
     (case clearCell_st s1 tempBoard (fst block) (snd block) of
        Inl e \<Rightarrow> Inl e
      | Inr s2 \<Rightarrow>
     (case movesOnTemp (load s2 tempBoard) block of
        Inl e \<Rightarrow> Inl e
      | Inr ms \<Rightarrow> Inr (ms, s2))))"

fun movesLoop_st ::
  "store \<Rightarrow> addr \<Rightarrow> coord list \<Rightarrow> move list \<Rightarrow> (move list \<times> store) js" where
  "movesLoop_st s board [] allMoves = Inr (allMoves, s)"
| "movesLoop_st s board (block # rest) allMoves =
     (case movesOfBlock_st s board block of
        Inl e \<Rightarrow> Inl e
      | Inr (ms, s') \<Rightarrow> movesLoop_st s' board rest (allMoves @ ms))"

definition findAllValidMoves_st :: "store \<Rightarrow> addr \<Rightarrow> (move list \<times> store) js" where
  "findAllValidMoves_st s board =
     (case findBlocks (load s board) of
        Inl e \<Rightarrow> Inl e
      | Inr blocks \<Rightarrow> movesLoop_st s board blocks [])"

text \<open>\<open>validateBoard\<close>, \<open>findBlocks\<close> and \<open>countConnectedBlocks\<close> contain no assignment
  to an element of the board or of a row; the arrays they push to and shift from are
  their own locals. On the store they are the functions of the value, and the store is
  handed back as it was.\<close>

definition validateBoard_st :: "store \<Rightarrow> addr \<Rightarrow> (string option \<times> store) js" where
  "validateBoard_st s board =
     (case validateBoard (load s board) of
        Inl e \<Rightarrow> Inl e
      | Inr v \<Rightarrow> Inr (v, s))"

section \<open>Notions of the specification\<close>

text \<open>A grid of the fixed size: an array of \<open>BOARD_SIZE\<close> arrays of \<open>BOARD_SIZE\<close> cells.\<close>

definition wellShaped :: "jsval \<Rightarrow> bool" where
  "wellShaped board =
     (isArray board \<and> int (length (elems board)) = BOARD_SIZE
        \<and> list_all (\<lambda>r. isArray r \<and> int (length (elems r)) = BOARD_SIZE) (elems board))"

text \<open>The cell at a coordinate of such a grid.\<close>

definition cellv :: "jsval \<Rightarrow> coord \<Rightarrow> jsval" where
  "cellv board p = elems (elems board ! nat (fst p)) ! nat (snd p)"

text \<open>The marked cells (blocks) and the empty cells. A cell that holds anything but the
  numbers 1 and 0 is neither.\<close>

definition blockSet :: "jsval \<Rightarrow> coord set" where
  "blockSet board = {p \<in> validCoords. cellv board p = JNum 1}"

definition emptySet :: "jsval \<Rightarrow> coord set" where
  "emptySet board = {p \<in> validCoords. cellv board p = JNum 0}"

text \<open>Two cells are adjacent when they differ by one unit in exactly one coordinate.\<close>

definition adjacent :: "coord \<Rightarrow> coord \<Rightarrow> bool" where
  "adjacent p q = (\<bar>fst p - fst q\<bar> + \<bar>snd p - snd q\<bar> = 1)"

text \<open>One step of edge-reachability goes to an adjacent marked cell.\<close>

definition edges :: "jsval \<Rightarrow> (coord \<times> coord) set" where
  "edges board = {(p, q). adjacent p q \<and> q \<in> blockSet board}"

definition reachable :: "jsval \<Rightarrow> coord \<Rightarrow> coord set" where
  "reachable board s = (edges board)\<^sup>* `` {s}"

text \<open>The marked cells that are edge-reachable from a start cell via marked cells.\<close>

definition reachableBlocks :: "jsval \<Rightarrow> coord \<Rightarrow> coord set" where
  "reachableBlocks board s = {q \<in> blockSet board. (s, q) \<in> (edges board)\<^sup>*}"

text \<open>The marked cells form one component: each is reachable from each.\<close>

definition connectedShape :: "jsval \<Rightarrow> bool" where
  "connectedShape board =
     (\<forall>p \<in> blockSet board. \<forall>q \<in> blockSet board. (p, q) \<in> (edges board)\<^sup>*)"

text \<open>The grid with one cell replaced, and the grid after a move: the source cell cleared
  and the destination cell set.\<close>

definition putCell :: "jsval \<Rightarrow> coord \<Rightarrow> jsval \<Rightarrow> jsval" where
  "putCell board p v =
     JArr ((elems board)[nat (fst p) :=
        JArr ((elems (elems board ! nat (fst p)))[nat (snd p) := v])])"

definition applyMove :: "jsval \<Rightarrow> coord \<Rightarrow> coord \<Rightarrow> jsval" where
  "applyMove board src dst = putCell (putCell board src (JNum 0)) dst (JNum 1)"

text \<open>An articulation cell: a marked cell whose removal leaves the remaining marked cells
  in more than one component.\<close>

definition articulation :: "jsval \<Rightarrow> coord \<Rightarrow> bool" where
  "articulation board b =
     (b \<in> blockSet board \<and> \<not> connectedShape (putCell board b (JNum 0)))"

text \<open>The cells where a lifted block may be put down: empty and next to a block.\<close>

definition destSet :: "jsval \<Rightarrow> coord set" where
  "destSet board = {d \<in> emptySet board. \<exists>b \<in> blockSet board. adjacent b d}"

text \<open>What the loop body produces for a block that yields a move.\<close>

definition legalMove :: "jsval \<Rightarrow> move \<Rightarrow> bool" where
  "legalMove board m =
     (moveFrom m \<in> blockSet board
      \<and> connectedShape (putCell board (moveFrom m) (JNum 0))
      \<and> moveTo m \<noteq> [] \<and> distinct (moveTo m)
      \<and> set (moveTo m) = destSet (putCell board (moveFrom m) (JNum 0)))"

text \<open>A later store extends an earlier one when every array of the earlier store is
  still there, at its address and with its elements.\<close>

definition extends :: "store \<Rightarrow> store \<Rightarrow> bool" where
  "extends s s' = (prefix (rowArrays s) (rowArrays s') \<and> prefix (boardArrays s) (boardArrays s'))"

section \<open>Example boards\<close>

definition emptyRow :: jsval where
  "emptyRow = JArr [JNum 0, JNum 0, JNum 0, JNum 0, JNum 0, JNum 0, JNum 0, JNum 0, JNum 0, JNum 0]"

definition fullRow :: jsval where
  "fullRow = JArr [JNum 1, JNum 1, JNum 1, JNum 1, JNum 1, JNum 1, JNum 1, JNum 1, JNum 1, JNum 1]"

text \<open>A straight line of ten blocks in row 0.\<close>

definition lineBoard :: jsval where
  "lineBoard = JArr [fullRow, emptyRow, emptyRow, emptyRow, emptyRow,
                     emptyRow, emptyRow, emptyRow, emptyRow, emptyRow]"

text \<open>What \<open>findAllValidMoves\<close> returns on the line.\<close>

definition lineMoves :: "move list" where
  "lineMoves =
     [Move (0, 0) [(1, 1), (0, 0), (1, 2), (1, 3), (1, 4), (1, 5), (1, 6), (1, 7), (1, 8), (1, 9)],
      Move (0, 9) [(1, 0), (1, 1), (1, 2), (1, 3), (1, 4), (1, 5), (1, 6), (1, 7), (1, 8), (0, 9)]]"

text \<open>Nine blocks: the line without its last cell.\<close>

definition nineBoard :: jsval where
  "nineBoard =
     JArr [JArr [JNum 1, JNum 1, JNum 1, JNum 1, JNum 1, JNum 1, JNum 1, JNum 1, JNum 1, JNum 0],
           emptyRow, emptyRow, emptyRow, emptyRow,
           emptyRow, emptyRow, emptyRow, emptyRow, emptyRow]"

text \<open>Two groups of five blocks, in rows 0 and 2, with an empty row between them.\<close>

definition fiveRow :: jsval where
  "fiveRow = JArr [JNum 1, JNum 1, JNum 1, JNum 1, JNum 1, JNum 0, JNum 0, JNum 0, JNum 0, JNum 0]"

definition twoGroups :: jsval where
  "twoGroups = JArr [fiveRow, emptyRow, fiveRow, emptyRow, emptyRow,
                     emptyRow, emptyRow, emptyRow, emptyRow, emptyRow]"

text \<open>The line, with the number 2 in the cell of row 5 and column 5.\<close>

definition nonBinaryBoard :: jsval where
  "nonBinaryBoard =
     JArr [fullRow, emptyRow, emptyRow, emptyRow, emptyRow,
           JArr [JNum 0, JNum 0, JNum 0, JNum 0, JNum 0, JNum 2, JNum 0, JNum 0, JNum 0, JNum 0],
           emptyRow, emptyRow, emptyRow, emptyRow]"

text \<open>The line in a store whose board array refers to one and the same empty row nine
  times.\<close>

definition lineStore :: store where
  "lineStore =
     \<lparr>rowArrays = [elems fullRow, elems emptyRow],
      boardArrays = [[0, 1, 1, 1, 1, 1, 1, 1, 1, 1]]\<rparr>"

section \<open>The traversal counts the component of its start\<close>

lemma finite_validCoords: "finite validCoords"
  by (simp add: validCoords_def)

lemma validCoords_iff: "(r, c) \<in> validCoords \<longleftrightarrow> isValidCoord r c"
  by (auto simp: validCoords_def isValidCoord_def)

lemma wellShaped_iff_check:
  "wellShaped board \<longleftrightarrow>
     \<not> (\<not> isArray board \<or> int (length (elems board)) \<noteq> BOARD_SIZE
          \<or> list_ex badRow (elems board))"
  by (auto simp: wellShaped_def badRow_def list_all_iff list_ex_iff)

lemma adjacent_neighbors: "adjacent (r, c) q \<longleftrightarrow> q \<in> set (neighbors r c)"
  by (cases q) (auto simp: adjacent_def neighbors_def)

lemma adjacent_sym: "adjacent p q \<Longrightarrow> adjacent q p"
  by (auto simp: adjacent_def)

lemma adjacent_neq: "adjacent p q \<Longrightarrow> p \<noteq> q"
  by (auto simp: adjacent_def)

lemma wellShaped_row:
  assumes "wellShaped board" "0 \<le> r" "r < BOARD_SIZE"
  shows "\<exists>cs. elems board ! nat r = JArr cs \<and> int (length cs) = BOARD_SIZE"
proof -
  from assms have "nat r < length (elems board)" by (auto simp: wellShaped_def)
  then have "elems board ! nat r \<in> set (elems board)" by simp
  with assms(1) have "isArray (elems board ! nat r)"
    "int (length (elems (elems board ! nat r))) = BOARD_SIZE"
    by (auto simp: wellShaped_def list_all_iff)
  then show ?thesis by (cases "elems board ! nat r") auto
qed

lemma getCell_wellShaped:
  assumes "wellShaped board" "isValidCoord r c"
  shows "getCell board r c = Inr (cellv board (r, c))"
proof -
  from assms(2) have r: "0 \<le> r" "r < BOARD_SIZE" and c: "0 \<le> c" "c < BOARD_SIZE"
    by (auto simp: isValidCoord_def)
  from assms(1) obtain rows where rows: "board = JArr rows" "int (length rows) = BOARD_SIZE"
    by (cases board) (auto simp: wellShaped_def)
  from wellShaped_row [OF assms(1) r] obtain cs
    where cs: "rows ! nat r = JArr cs" "int (length cs) = BOARD_SIZE"
    using rows by auto
  have "nat r < length rows" "nat c < length cs" using rows(2) cs(2) r c by linarith+
  then show ?thesis using rows(1) cs(1) r c by (simp add: getCell_def cellv_def)
qed

lemma scanCells_wellShaped:
  "wellShaped board \<Longrightarrow> set ps \<subseteq> validCoords \<Longrightarrow>
   scanCells board ps blocks = Inr (blocks @ filter (\<lambda>p. cellv board p = JNum 1) ps)"
proof (induction board ps blocks rule: scanCells.induct)
  case (1 board blocks)
  then show ?case by simp
next
  case (2 board r c rest blocks)
  then have v: "isValidCoord r c" by (simp add: validCoords_iff)
  from getCell_wellShaped [OF "2.prems"(1) v] "2.IH" "2.prems"
  show ?case by simp
qed

lemma set_scanOrder: "set scanOrder = validCoords"
  by (auto simp: scanOrder_def validCoords_def indices_def)

lemma distinct_scanOrder: "distinct scanOrder"
  by (simp add: scanOrder_def indices_def distinct_product)

lemma findBlocks_wellShaped:
  "wellShaped board \<Longrightarrow>
   findBlocks board = Inr (filter (\<lambda>p. cellv board p = JNum 1) scanOrder)"
  by (simp add: findBlocks_def scanCells_wellShaped set_scanOrder)

lemma findBlocks_set:
  "wellShaped board \<Longrightarrow> findBlocks board = Inr blocks \<Longrightarrow>
   set blocks = blockSet board \<and> distinct blocks \<and> length blocks = card (blockSet board)"
proof -
  assume ws: "wellShaped board" and fb: "findBlocks board = Inr blocks"
  from findBlocks_wellShaped [OF ws] fb
  have b: "blocks = filter (\<lambda>p. cellv board p = JNum 1) scanOrder" by simp
  have s: "set blocks = blockSet board"
    by (auto simp: b blockSet_def set_scanOrder)
  have d: "distinct blocks" by (simp add: b distinct_scanOrder)
  from s d show ?thesis by (metis distinct_card)
qed

lemma finite_blockSet: "finite (blockSet board)"
  by (rule finite_subset [OF _ finite_validCoords]) (auto simp: blockSet_def)

lemma visitNeighbors_wellShaped:
  "wellShaped board \<Longrightarrow>
   \<exists>new. visitNeighbors board ns queue visited = Inr (queue @ new, visited \<union> set new)
        \<and> distinct new \<and> set new = (set ns \<inter> blockSet board) - visited"
proof (induction board ns queue visited rule: visitNeighbors.induct)
  case (1 board queue visited)
  then show ?case by simp
next
  case (2 board nr nc rest queue visited)
  note ws = "2.prems"
  show ?case
  proof (cases "isValidCoord nr nc")
    case False
    then have nb: "(nr, nc) \<notin> blockSet board"
      by (simp add: blockSet_def validCoords_iff)
    from "2.IH"(3) [OF False ws] obtain new
      where "visitNeighbors board rest queue visited = Inr (queue @ new, visited \<union> set new)"
        "distinct new" "set new = (set rest \<inter> blockSet board) - visited"
      by blast
    with False nb show ?thesis by auto
  next
    case True
    note gc = getCell_wellShaped [OF ws True]
    show ?thesis
    proof (cases "cellv board (nr, nc) = JNum 1 \<and> (nr, nc) \<notin> visited")
      case push: True
      then have p': "cellv board (nr, nc) = JNum 1 \<and> (nr, nc) \<notin> visited" .
      from "2.IH"(1) [OF True gc p' ws] obtain new
        where new: "visitNeighbors board rest (queue @ [(nr, nc)]) (insert (nr, nc) visited)
             = Inr ((queue @ [(nr, nc)]) @ new, insert (nr, nc) visited \<union> set new)"
          "distinct new" "set new = (set rest \<inter> blockSet board) - insert (nr, nc) visited"
        by blast
      have inb: "(nr, nc) \<in> blockSet board"
        using push True by (simp add: blockSet_def validCoords_iff)
      have "visitNeighbors board ((nr, nc) # rest) queue visited
              = Inr (queue @ ((nr, nc) # new), visited \<union> set ((nr, nc) # new))"
        using True gc push new(1) by simp
      moreover have "distinct ((nr, nc) # new)" using new(2,3) by auto
      moreover have "set ((nr, nc) # new) = (set ((nr, nc) # rest) \<inter> blockSet board) - visited"
        using new(3) inb push by auto
      ultimately show ?thesis by blast
    next
      case skip: False
      from "2.IH"(2) [OF True gc skip ws] obtain new
        where new: "visitNeighbors board rest queue visited = Inr (queue @ new, visited \<union> set new)"
          "distinct new" "set new = (set rest \<inter> blockSet board) - visited"
        by blast
      have "(nr, nc) \<notin> blockSet board \<or> (nr, nc) \<in> visited"
        using skip by (auto simp: blockSet_def)
      then have "set new = (set ((nr, nc) # rest) \<inter> blockSet board) - visited"
        using new(3) by auto
      moreover have "visitNeighbors board ((nr, nc) # rest) queue visited
              = Inr (queue @ new, visited \<union> set new)"
        using True gc skip new(1) by auto
      ultimately show ?thesis using new(2) by blast
    qed
  qed
qed

lemma edges_image: "edges board `` {(r, c)} = set (neighbors r c) \<inter> blockSet board"
  by (auto simp: edges_def adjacent_neighbors)

lemma bfsLoop_wellShaped:
  "wellShaped board \<Longrightarrow> distinct queue \<Longrightarrow> set queue \<subseteq> visited \<Longrightarrow> finite visited \<Longrightarrow>
   s \<in> visited \<Longrightarrow> visited \<subseteq> reachable board s \<Longrightarrow>
   (\<forall>p \<in> visited - set queue. edges board `` {p} \<subseteq> visited) \<Longrightarrow>
   count + length queue = card visited \<Longrightarrow>
   bfsLoop board queue visited count = Inr (card (reachable board s))"
proof (induction board queue visited count rule: bfsLoop.induct)
  case (1 board visited count)
  have "reachable board s \<subseteq> visited"
  proof
    fix q assume "q \<in> reachable board s"
    then have "(s, q) \<in> (edges board)\<^sup>*" by (simp add: reachable_def)
    then show "q \<in> visited"
    proof (induction rule: rtrancl_induct)
      case base
      then show ?case using "1.prems" by simp
    next
      case (step y z)
      then show ?case using "1.prems"(7) by auto
    qed
  qed
  with "1.prems" have "visited = reachable board s" by auto
  with "1.prems" show ?case by simp
next
  case (2 board r c queue visited count)
  note ws = "2.prems"(1)
  from visitNeighbors_wellShaped [OF ws, of "neighbors r c" queue visited] obtain new
    where new: "visitNeighbors board (neighbors r c) queue visited
                  = Inr (queue @ new, visited \<union> set new)"
      "distinct new" "set new = (set (neighbors r c) \<inter> blockSet board) - visited"
    by blast
  have new_e: "set new = edges board `` {(r, c)} - visited"
    using new(3) by (simp add: edges_image)
  have rc: "(r, c) \<in> visited" using "2.prems"(3) by simp
  have d: "distinct (queue @ new)" using "2.prems"(2,3) new(2,3) by auto
  have sub: "set (queue @ new) \<subseteq> visited \<union> set new" using "2.prems"(3) by auto
  have fin: "finite (visited \<union> set new)" using "2.prems"(4) by simp
  have s: "s \<in> visited \<union> set new" using "2.prems"(5) by simp
  have reach: "visited \<union> set new \<subseteq> reachable board s"
  proof -
    have "(s, (r, c)) \<in> (edges board)\<^sup>*"
      using rc "2.prems"(6) by (auto simp: reachable_def)
    then have "edges board `` {(r, c)} \<subseteq> reachable board s"
      by (auto simp: reachable_def intro: rtrancl_into_rtrancl)
    with new_e "2.prems"(6) show ?thesis by auto
  qed
  have closed: "\<forall>p \<in> (visited \<union> set new) - set (queue @ new).
                  edges board `` {p} \<subseteq> visited \<union> set new"
  proof
    fix p assume p: "p \<in> (visited \<union> set new) - set (queue @ new)"
    show "edges board `` {p} \<subseteq> visited \<union> set new"
    proof (cases "p = (r, c)")
      case True
      then show ?thesis using new_e by auto
    next
      case False
      with p have "p \<in> visited - set ((r, c) # queue)" by auto
      with "2.prems"(7) show ?thesis by blast
    qed
  qed
  have cnt: "count + 1 + length (queue @ new) = card (visited \<union> set new)"
  proof -
    have "visited \<inter> set new = {}" using new(3) by auto
    then have "card (visited \<union> set new) = card visited + card (set new)"
      using "2.prems"(4) by (intro card_Un_disjoint) simp_all
    also have "card (set new) = length new" using new(2) by (simp add: distinct_card)
    finally show ?thesis using "2.prems"(8) by simp
  qed
  from "2.IH" [OF new(1) refl ws d sub fin s reach closed cnt] new(1)
  show ?case by simp
qed

lemma countConnectedBlocks_wellShaped:
  assumes "wellShaped board"
  shows "countConnectedBlocks board (Some s) = Inr (card (reachable board s))"
proof -
  have "bfsLoop board [s] {s} 0 = Inr (card (reachable board s))"
    by (rule bfsLoop_wellShaped [OF assms]) (auto simp: reachable_def)
  then show ?thesis by (simp add: countConnectedBlocks_def)
qed

section \<open>Connected shapes and what the validation decides\<close>

lemma edges_target: "(p, q) \<in> edges board \<Longrightarrow> q \<in> blockSet board"
  by (simp add: edges_def)

lemma reach_stays:
  "(p, q) \<in> (edges board)\<^sup>* \<Longrightarrow> p \<in> blockSet board \<Longrightarrow> q \<in> blockSet board"
  by (induction rule: rtrancl_induct) (auto dest: edges_target)

lemma reach_sym:
  "(p, q) \<in> (edges board)\<^sup>* \<Longrightarrow> p \<in> blockSet board \<Longrightarrow> (q, p) \<in> (edges board)\<^sup>*"
proof (induction rule: rtrancl_induct)
  case base
  then show ?case by simp
next
  case (step y z)
  then have y: "y \<in> blockSet board" by (auto dest: reach_stays)
  from step(2) have "adjacent y z" by (simp add: edges_def)
  then have "(z, y) \<in> edges board" using y by (simp add: edges_def adjacent_sym)
  moreover have "(y, p) \<in> (edges board)\<^sup>*" using step by simp
  ultimately show ?case by (rule converse_rtrancl_into_rtrancl)
qed

lemma reachable_subset:
  "s \<in> blockSet board \<Longrightarrow> reachable board s \<subseteq> blockSet board"
  by (auto simp: reachable_def dest: reach_stays)

lemma reachable_self: "s \<in> reachable board s"
  by (simp add: reachable_def)

lemma finite_reachable: "finite (reachable board s)"
proof -
  have "reachable board s \<subseteq> insert s (blockSet board)"
  proof
    fix q assume "q \<in> reachable board s"
    then have "(s, q) \<in> (edges board)\<^sup>*" by (simp add: reachable_def)
    then show "q \<in> insert s (blockSet board)"
      by (cases rule: rtranclE) (auto dest: edges_target)
  qed
  then show ?thesis using finite_blockSet by (meson finite_insert finite_subset)
qed

text \<open>From a marked start, the traversal sees every block exactly when the shape is connected.\<close>

lemma connected_iff_reachable:
  assumes "s \<in> blockSet board"
  shows "connectedShape board \<longleftrightarrow> card (reachable board s) = card (blockSet board)"
proof
  assume c: "connectedShape board"
  then have "blockSet board \<subseteq> reachable board s"
    using assms by (auto simp: connectedShape_def reachable_def)
  with reachable_subset [OF assms] show "card (reachable board s) = card (blockSet board)"
    by (simp add: subset_antisym)
next
  assume "card (reachable board s) = card (blockSet board)"
  with reachable_subset [OF assms] finite_blockSet
  have eq: "reachable board s = blockSet board" by (simp add: card_subset_eq)
  show "connectedShape board"
    unfolding connectedShape_def
  proof (intro ballI)
    fix p q assume p: "p \<in> blockSet board" and q: "q \<in> blockSet board"
    from p q eq have sp: "(s, p) \<in> (edges board)\<^sup>*" and sq: "(s, q) \<in> (edges board)\<^sup>*"
      by (auto simp: reachable_def)
    from reach_sym [OF sp assms] sq show "(p, q) \<in> (edges board)\<^sup>*" by simp
  qed
qed

lemma firstBlock_in:
  "blocks \<noteq> [] \<Longrightarrow> \<exists>s. firstBlock blocks = Some s \<and> s \<in> set blocks"
  by (cases blocks) (auto simp: firstBlock_def)

text \<open>What the validation decides on a well-shaped board.\<close>

lemma validateBoard_wellShaped:
  assumes ws: "wellShaped board"
  shows "validateBoard board =
           (if card (blockSet board) \<noteq> BLOCK_COUNT then Inr (Some WrongBlockCount)
            else if \<not> connectedShape board then Inr (Some Disconnected)
            else Inr None)"
proof -
  obtain blocks where fb: "findBlocks board = Inr blocks"
    using findBlocks_wellShaped [OF ws] by blast
  note bs = findBlocks_set [OF ws fb]
  from ws have chk: "\<not> (\<not> isArray board \<or> int (length (elems board)) \<noteq> BOARD_SIZE
          \<or> list_ex badRow (elems board))"
    by (rule iffD1 [OF wellShaped_iff_check])
  show ?thesis
  proof (cases "card (blockSet board) = BLOCK_COUNT")
    case False
    then show ?thesis using chk fb bs by (simp add: validateBoard_def)
  next
    case True
    then have "blocks \<noteq> []" using bs by (auto simp: BLOCK_COUNT_def)
    from firstBlock_in [OF this] obtain s
      where s: "firstBlock blocks = Some s" "s \<in> blockSet board"
      using bs by auto
    from countConnectedBlocks_wellShaped [OF ws]
    have cc: "countConnectedBlocks board (firstBlock blocks) = Inr (card (reachable board s))"
      using s by simp
    have "connectedShape board \<longleftrightarrow> card (reachable board s) = BLOCK_COUNT"
      using connected_iff_reachable [OF s(2)] True by simp
    then show ?thesis using chk fb bs True cc by (simp add: validateBoard_def)
  qed
qed

lemma validateBoard_malformed:
  "\<not> wellShaped board \<Longrightarrow> validateBoard board = Inr (Some MalformedShape)"
  unfolding wellShaped_iff_check validateBoard_def by simp

lemma messages_distinct:
  "MalformedShape \<noteq> WrongBlockCount" "MalformedShape \<noteq> Disconnected"
  "WrongBlockCount \<noteq> Disconnected"
  by (simp_all add: MalformedShape_def WrongBlockCount_def Disconnected_def)

lemma validateBoard_valid_iff:
  "validateBoard board = Inr None \<longleftrightarrow>
     wellShaped board \<and> card (blockSet board) = BLOCK_COUNT \<and> connectedShape board"
proof (cases "wellShaped board")
  case True
  then show ?thesis by (simp add: validateBoard_wellShaped)
next
  case False
  then show ?thesis by (simp add: validateBoard_malformed)
qed

section \<open>Replacing a cell, and the working copy\<close>

lemma wellShaped_putCell:
  assumes "wellShaped board" "p \<in> validCoords"
  shows "wellShaped (putCell board p v)"
proof -
  obtain r c where p: "p = (r, c)" by (cases p)
  with assms(2) have r: "0 \<le> r" "r < BOARD_SIZE"
    by (auto simp: validCoords_iff isValidCoord_def)
  from wellShaped_row [OF assms(1) r] obtain cs
    where cs: "elems board ! nat r = JArr cs" "int (length cs) = BOARD_SIZE" by blast
  have "\<And>x. x \<in> set ((elems board)[nat r := JArr (cs[nat c := v])]) \<Longrightarrow>
          isArray x \<and> int (length (elems x)) = BOARD_SIZE"
  proof -
    fix x assume "x \<in> set ((elems board)[nat r := JArr (cs[nat c := v])])"
    then have "x \<in> insert (JArr (cs[nat c := v])) (set (elems board))"
      using set_update_subset_insert by fastforce
    then show "isArray x \<and> int (length (elems x)) = BOARD_SIZE"
      using assms(1) cs(2) by (auto simp: wellShaped_def list_all_iff)
  qed
  then show ?thesis using assms(1) cs p
    by (simp add: wellShaped_def putCell_def list_all_iff)
qed

lemma cellv_putCell:
  assumes "wellShaped board" "p \<in> validCoords" "q \<in> validCoords"
  shows "cellv (putCell board p v) q = (if q = p then v else cellv board q)"
proof -
  obtain r c where p: "p = (r, c)" by (cases p)
  obtain r' c' where q: "q = (r', c')" by (cases q)
  from assms(2) p have r: "0 \<le> r" "r < BOARD_SIZE" and c: "0 \<le> c" "c < BOARD_SIZE"
    by (auto simp: validCoords_iff isValidCoord_def)
  from assms(3) q have r': "0 \<le> r'" "r' < BOARD_SIZE" and c': "0 \<le> c'" "c' < BOARD_SIZE"
    by (auto simp: validCoords_iff isValidCoord_def)
  from wellShaped_row [OF assms(1) r] obtain cs
    where cs: "elems board ! nat r = JArr cs" "int (length cs) = BOARD_SIZE" by blast
  from assms(1) have len: "int (length (elems board)) = BOARD_SIZE"
    by (simp add: wellShaped_def)
  have lr: "nat r < length (elems board)" "nat r' < length (elems board)"
    using len r r' by linarith+
  have lc: "nat c < length cs" "nat c' < length cs" using cs(2) c c' by linarith+
  show ?thesis
  proof (cases "r' = r")
    case True
    then show ?thesis using p q cs lr lc c c' r
      by (auto simp: cellv_def putCell_def nth_list_update)
  next
    case False
    then have "nat r' \<noteq> nat r" using r r' by linarith
    then show ?thesis using p q lr False
      by (auto simp: cellv_def putCell_def nth_list_update)
  qed
qed

lemma blockSet_clear:
  assumes "wellShaped board" "p \<in> validCoords"
  shows "blockSet (putCell board p (JNum 0)) = blockSet board - {p}"
  using assms by (auto simp: blockSet_def cellv_putCell split: if_splits)

lemma blockSet_set:
  assumes "wellShaped board" "p \<in> validCoords"
  shows "blockSet (putCell board p (JNum 1)) = insert p (blockSet board)"
  using assms by (auto simp: blockSet_def cellv_putCell split: if_splits)

lemma spreadAll_arrays:
  "list_all isArray rows \<Longrightarrow> spreadAll rows = Inr (map elems rows)"
proof (induction rows)
  case Nil
  then show ?case by simp
next
  case (Cons row rows)
  then show ?case by (cases row) auto
qed

text \<open>The working copy of the move enumeration is the board with one cell cleared.\<close>

lemma tempBoard_wellShaped:
  assumes ws: "wellShaped board" and v: "isValidCoord r c"
  shows "\<exists>rows. copyBoard board = Inr rows
           \<and> clearCell rows r c = Inr (putCell board (r, c) (JNum 0))"
proof -
  from ws obtain rs where rs: "board = JArr rs" "int (length rs) = BOARD_SIZE"
    by (cases board) (auto simp: wellShaped_def)
  from ws rs have "list_all isArray rs" by (auto simp: wellShaped_def list_all_iff)
  then have cp: "copyBoard board = Inr (map elems rs)"
    using rs by (simp add: copyBoard_def spreadAll_arrays)
  from v have r: "0 \<le> r" "r < BOARD_SIZE" and c: "0 \<le> c" "c < BOARD_SIZE"
    by (auto simp: isValidCoord_def)
  from wellShaped_row [OF ws r] rs obtain cs
    where cs: "rs ! nat r = JArr cs" "int (length cs) = BOARD_SIZE" by auto
  have lr: "nat r < length rs" using rs r by linarith
  have lc: "nat c < length cs" using cs c by linarith
  have allarr: "map (JArr \<circ> elems) rs = rs"
  proof (rule map_idI)
    fix x assume "x \<in> set rs"
    then have "isArray x" using \<open>list_all isArray rs\<close> by (simp add: list_all_iff)
    then show "(JArr \<circ> elems) x = x" by (cases x) auto
  qed
  have "clearCell (map elems rs) r c = Inr (putCell board (r, c) (JNum 0))"
    using lr lc r c cs rs(1) allarr
    by (simp add: clearCell_def putCell_def arrSet_def map_update)
  with cp show ?thesis by blast
qed

lemma collectNeighbors_wellShaped:
  "wellShaped board \<Longrightarrow> distinct dests \<Longrightarrow>
   \<exists>dests'. collectNeighbors board ns dests = Inr dests' \<and> distinct dests'
       \<and> set dests' = set dests \<union> (set ns \<inter> emptySet board)"
proof (induction board ns dests rule: collectNeighbors.induct)
  case (1 tempBoard dests)
  then show ?case by simp
next
  case (2 tempBoard nr nc rest dests)
  note ws = "2.prems"(1)
  show ?case
  proof (cases "isValidCoord nr nc")
    case False
    then have "(nr, nc) \<notin> emptySet tempBoard" by (simp add: emptySet_def validCoords_iff)
    with "2.IH"(2) [OF False ws "2.prems"(2)] False show ?thesis by auto
  next
    case True
    note gc = getCell_wellShaped [OF ws True]
    let ?d = "if cellv tempBoard (nr, nc) = JNum 0 then addKey (nr, nc) dests else dests"
    have d: "distinct ?d" using "2.prems"(2) by (simp add: addKey_def)
    have sd: "set ?d = set dests \<union> ({(nr, nc)} \<inter> emptySet tempBoard)"
      using True by (auto simp: addKey_def emptySet_def validCoords_iff)
    from "2.IH"(1) [OF True gc ws d] obtain dests'
      where "collectNeighbors tempBoard rest ?d = Inr dests'" "distinct dests'"
        "set dests' = set ?d \<union> (set rest \<inter> emptySet tempBoard)"
      by blast
    then show ?thesis using True gc sd by auto
  qed
qed

lemma collectDestinations_wellShaped:
  "wellShaped board \<Longrightarrow> distinct dests \<Longrightarrow>
   \<exists>dests'. collectDestinations board others dests = Inr dests' \<and> distinct dests'
       \<and> set dests' = set dests \<union> {d \<in> emptySet board. \<exists>b \<in> set others. adjacent b d}"
proof (induction board others dests rule: collectDestinations.induct)
  case (1 tempBoard dests)
  then show ?case by simp
next
  case (2 tempBoard r c others dests)
  from collectNeighbors_wellShaped [OF "2.prems", of "neighbors r c"] obtain d1
    where d1: "collectNeighbors tempBoard (neighbors r c) dests = Inr d1" "distinct d1"
      "set d1 = set dests \<union> (set (neighbors r c) \<inter> emptySet tempBoard)"
    by blast
  from "2.IH" [OF d1(1) "2.prems"(1) d1(2)] obtain d2
    where d2: "collectDestinations tempBoard others d1 = Inr d2" "distinct d2"
      "set d2 = set d1 \<union> {d \<in> emptySet tempBoard. \<exists>b \<in> set others. adjacent b d}"
    by blast
  have "set d2 = set dests
          \<union> {d \<in> emptySet tempBoard. \<exists>b \<in> set ((r, c) # others). adjacent b d}"
    using d2(3) d1(3) by (auto simp: adjacent_neighbors)
  with d1(1) d2(1,2) show ?case by auto
qed

section \<open>The moves of the enumeration\<close>

lemma count_matches_connected:
  assumes ws: "wellShaped board" and fb: "findBlocks board = Inr blocks"
  shows "\<exists>n. countConnectedBlocks board (firstBlock blocks) = Inr n
            \<and> (n = length blocks \<longleftrightarrow> connectedShape board)"
proof (cases blocks)
  case Nil
  then have "blockSet board = {}" using findBlocks_set [OF ws fb] by simp
  then have "connectedShape board" by (simp add: connectedShape_def)
  then show ?thesis using Nil by (simp add: firstBlock_def countConnectedBlocks_def)
next
  case (Cons s rest)
  note bs = findBlocks_set [OF ws fb]
  from Cons bs have s: "s \<in> blockSet board" by auto
  have "countConnectedBlocks board (firstBlock blocks) = Inr (card (reachable board s))"
    using Cons countConnectedBlocks_wellShaped [OF ws] by (simp add: firstBlock_def)
  moreover have "card (reachable board s) = length blocks \<longleftrightarrow> connectedShape board"
    using connected_iff_reachable [OF s] bs by simp
  ultimately show ?thesis by blast
qed

lemma movesOfBlock_wellShaped:
  assumes ws: "wellShaped board" and v: "isValidCoord r c"
  shows "\<exists>dests. distinct dests
           \<and> set dests = destSet (putCell board (r, c) (JNum 0))
           \<and> movesOfBlock board (r, c) =
               Inr (if connectedShape (putCell board (r, c) (JNum 0)) \<and> dests \<noteq> []
                    then [Move (r, c) dests] else [])"
proof -
  let ?T = "putCell board (r, c) (JNum 0)"
  from v have vc: "(r, c) \<in> validCoords" by (simp add: validCoords_iff)
  have wsT: "wellShaped ?T" by (rule wellShaped_putCell [OF ws vc])
  from tempBoard_wellShaped [OF ws v] obtain rows
    where rows: "copyBoard board = Inr rows" "clearCell rows r c = Inr ?T" by blast
  obtain remaining where fb: "findBlocks ?T = Inr remaining"
    using findBlocks_wellShaped [OF wsT] by blast
  note bs = findBlocks_set [OF wsT fb]
  from count_matches_connected [OF wsT fb] obtain n
    where n: "countConnectedBlocks ?T (firstBlock remaining) = Inr n"
      "n = length remaining \<longleftrightarrow> connectedShape ?T" by blast
  from collectDestinations_wellShaped [OF wsT, of "[]" remaining] obtain dests
    where d: "collectDestinations ?T remaining [] = Inr dests" "distinct dests"
      "set dests = {d \<in> emptySet ?T. \<exists>b \<in> set remaining. adjacent b d}"
    by auto
  have sd: "set dests = destSet ?T" using d(3) bs by (simp add: destSet_def)
  have "movesOfBlock board (r, c) =
          Inr (if connectedShape ?T \<and> dests \<noteq> [] then [Move (r, c) dests] else [])"
    using rows fb n d(1) by (simp add: movesOfBlock_def movesOnTemp_def)
  with d(2) sd show ?thesis by blast
qed

lemma movesLoop_wellShaped:
  "wellShaped board \<Longrightarrow> set blocks \<subseteq> blockSet board \<Longrightarrow>
   \<exists>ms. movesLoop board blocks allMoves = Inr (allMoves @ ms)
       \<and> (\<forall>m \<in> set ms. moveFrom m \<in> set blocks \<and> legalMove board m)"
proof (induction board blocks allMoves rule: movesLoop.induct)
  case (1 board allMoves)
  then show ?case by simp
next
  case (2 board block rest allMoves)
  note ws = "2.prems"(1)
  obtain r c where b: "block = (r, c)" by (cases block)
  have inb: "(r, c) \<in> blockSet board" using "2.prems"(2) b by simp
  then have v: "isValidCoord r c" by (simp add: blockSet_def validCoords_iff)
  from movesOfBlock_wellShaped [OF ws v] obtain dests
    where d: "distinct dests" "set dests = destSet (putCell board (r, c) (JNum 0))"
      "movesOfBlock board (r, c) =
         Inr (if connectedShape (putCell board (r, c) (JNum 0)) \<and> dests \<noteq> []
              then [Move (r, c) dests] else [])"
    by blast
  let ?ms = "if connectedShape (putCell board (r, c) (JNum 0)) \<and> dests \<noteq> []
             then [Move (r, c) dests] else []"
  have legal: "\<forall>m \<in> set ?ms. moveFrom m = block \<and> legalMove board m"
    using d(1,2) inb b by (auto simp: legalMove_def)
  from "2.prems"(2) have sub: "set rest \<subseteq> blockSet board" by simp
  from "2.IH" [OF d(3) [unfolded b [symmetric]] ws sub] b obtain ms'
    where ms': "movesLoop board rest (allMoves @ ?ms) = Inr ((allMoves @ ?ms) @ ms')"
      "\<forall>m \<in> set ms'. moveFrom m \<in> set rest \<and> legalMove board m"
    by blast
  have "movesLoop board (block # rest) allMoves = Inr (allMoves @ (?ms @ ms'))"
    using d(3) ms'(1) b by simp
  moreover have "\<forall>m \<in> set (?ms @ ms'). moveFrom m \<in> set (block # rest) \<and> legalMove board m"
    using legal ms'(2) by auto
  ultimately show ?case by blast
qed

lemma findAllValidMoves_wellShaped:
  assumes ws: "wellShaped board"
  shows "\<exists>ms. findAllValidMoves board = Inr ms \<and> (\<forall>m \<in> set ms. legalMove board m)"
proof -
  obtain blocks where fb: "findBlocks board = Inr blocks"
    using findBlocks_wellShaped [OF ws] by blast
  from findBlocks_set [OF ws fb] have "set blocks \<subseteq> blockSet board" by simp
  from movesLoop_wellShaped [OF ws this, of "[]"] fb
  show ?thesis by (auto simp: findAllValidMoves_def)
qed

lemma edges_mono:
  "blockSet a \<subseteq> blockSet b \<Longrightarrow> (edges a)\<^sup>* \<subseteq> (edges b)\<^sup>*"
  by (rule rtrancl_mono) (auto simp: edges_def)

lemma connected_from_hub:
  assumes hub: "h \<in> blockSet board"
    and all: "\<forall>q \<in> blockSet board. (h, q) \<in> (edges board)\<^sup>*"
  shows "connectedShape board"
  unfolding connectedShape_def
proof (intro ballI)
  fix p q assume p: "p \<in> blockSet board" and q: "q \<in> blockSet board"
  from all p have "(h, p) \<in> (edges board)\<^sup>*" by simp
  from reach_sym [OF this hub] all q show "(p, q) \<in> (edges board)\<^sup>*" by auto
qed

text \<open>Putting a block on a destination of a connected shape keeps the shape connected.\<close>

lemma connected_add:
  assumes ws: "wellShaped T" and c: "connectedShape T" and d: "d \<in> destSet T"
  shows "connectedShape (putCell T d (JNum 1))"
proof -
  let ?G = "putCell T d (JNum 1)"
  from d obtain h where h: "h \<in> blockSet T" "adjacent h d" and dv: "d \<in> validCoords"
    by (auto simp: destSet_def emptySet_def)
  have bs: "blockSet ?G = insert d (blockSet T)" by (rule blockSet_set [OF ws dv])
  then have sub: "blockSet T \<subseteq> blockSet ?G" by auto
  have hd: "(h, d) \<in> edges ?G" using h(2) bs by (simp add: edges_def)
  have "\<forall>q \<in> blockSet ?G. (h, q) \<in> (edges ?G)\<^sup>*"
  proof
    fix q assume "q \<in> blockSet ?G"
    with bs have "q = d \<or> q \<in> blockSet T" by auto
    then show "(h, q) \<in> (edges ?G)\<^sup>*"
    proof
      assume "q = d" with hd show ?thesis by auto
    next
      assume "q \<in> blockSet T"
      with c h(1) have "(h, q) \<in> (edges T)\<^sup>*" by (simp add: connectedShape_def)
      with edges_mono [OF sub] show ?thesis by auto
    qed
  qed
  moreover have "h \<in> blockSet ?G" using h(1) sub by auto
  ultimately show ?thesis by (intro connected_from_hub [of h])
qed

lemma legalMove_closure:
  assumes valid: "validateBoard board = Inr None"
    and legal: "legalMove board m" and d: "d \<in> set (moveTo m)"
  shows "validateBoard (applyMove board (moveFrom m) d) = Inr None"
proof -
  let ?T = "putCell board (moveFrom m) (JNum 0)"
  from valid have ws: "wellShaped board" and card: "card (blockSet board) = BLOCK_COUNT"
    by (simp_all add: validateBoard_valid_iff)
  from legal have src: "moveFrom m \<in> blockSet board" and cT: "connectedShape ?T"
    and dd: "d \<in> destSet ?T"
    using d by (auto simp: legalMove_def)
  from src have sv: "moveFrom m \<in> validCoords" by (simp add: blockSet_def)
  have wsT: "wellShaped ?T" by (rule wellShaped_putCell [OF ws sv])
  from dd have dv: "d \<in> validCoords" and dn: "d \<notin> blockSet ?T"
    by (auto simp: destSet_def emptySet_def blockSet_def)
  have bT: "blockSet ?T = blockSet board - {moveFrom m}" by (rule blockSet_clear [OF ws sv])
  have "card (blockSet ?T) = BLOCK_COUNT - 1"
    using bT src card finite_blockSet by simp
  moreover have "blockSet (putCell ?T d (JNum 1)) = insert d (blockSet ?T)"
    by (rule blockSet_set [OF wsT dv])
  ultimately have "card (blockSet (putCell ?T d (JNum 1))) = BLOCK_COUNT"
    using dn finite_blockSet [of ?T] by (simp add: BLOCK_COUNT_def)
  moreover have "wellShaped (putCell ?T d (JNum 1))" by (rule wellShaped_putCell [OF wsT dv])
  moreover have "connectedShape (putCell ?T d (JNum 1))" by (rule connected_add [OF wsT cT dd])
  ultimately show ?thesis by (simp add: validateBoard_valid_iff applyMove_def)
qed

lemma legalMove_source_offered:
  assumes valid: "validateBoard board = Inr None" and legal: "legalMove board m"
  shows "moveFrom m \<in> set (moveTo m)"
proof -
  let ?b = "moveFrom m"
  let ?T = "putCell board ?b (JNum 0)"
  from valid have ws: "wellShaped board" and card: "card (blockSet board) = BLOCK_COUNT"
    and conn: "connectedShape board"
    by (simp_all add: validateBoard_valid_iff)
  from legal have src: "?b \<in> blockSet board" and dest: "set (moveTo m) = destSet ?T"
    by (auto simp: legalMove_def)
  from src have sv: "?b \<in> validCoords" by (simp add: blockSet_def)
  have bT: "blockSet ?T = blockSet board - {?b}" by (rule blockSet_clear [OF ws sv])
  have "blockSet board \<noteq> {?b}" using card by (auto simp: BLOCK_COUNT_def)
  with src obtain x where x: "x \<in> blockSet board" "x \<noteq> ?b" by auto
  with conn src have "(?b, x) \<in> (edges board)\<^sup>*" by (simp add: connectedShape_def)
  with x(2) obtain y where y: "(?b, y) \<in> edges board"
    by (auto elim: converse_rtranclE)
  then have adj: "adjacent ?b y" and yb: "y \<in> blockSet board" by (auto simp: edges_def)
  from adj have "y \<noteq> ?b" by (auto dest: adjacent_neq)
  with yb bT have yT: "y \<in> blockSet ?T" by simp
  have "cellv ?T ?b = JNum 0" using cellv_putCell [OF ws sv sv] by simp
  then have "?b \<in> emptySet ?T" using sv by (simp add: emptySet_def)
  with yT adj have "?b \<in> destSet ?T" by (auto simp: destSet_def dest: adjacent_sym)
  with dest show ?thesis by simp
qed

section \<open>The store: the working copy is fresh\<close>

lemma extends_refl: "extends s s"
  by (simp add: extends_def)

lemma extends_trans: "extends s s1 \<Longrightarrow> extends s1 s2 \<Longrightarrow> extends s s2"
  by (auto simp: extends_def)

lemma extends_allocated: "extends s s' \<Longrightarrow> allocated s board \<Longrightarrow> allocated s' board"
  by (fastforce simp: extends_def allocated_def prefix_def nth_append list_all_iff)

lemma extends_load: "extends s s' \<Longrightarrow> allocated s board \<Longrightarrow> load s' board = load s board"
  by (auto simp: extends_def allocated_def prefix_def nth_append list_all_iff load_def)

lemma copyRows_st_allocated:
  "list_all (\<lambda>a. a < length (rowArrays s)) rows \<Longrightarrow>
   copyRows_st s rows =
     Inr ([length (rowArrays s) ..< length (rowArrays s) + length rows],
          s\<lparr>rowArrays := rowArrays s @ map (\<lambda>a. rowArrays s ! a) rows\<rparr>)"
proof (induction rows arbitrary: s)
  case Nil
  then show ?case by simp
next
  case (Cons row rows)
  let ?s1 = "s\<lparr>rowArrays := rowArrays s @ [rowArrays s ! row]\<rparr>"
  from Cons.prems have row: "row < length (rowArrays s)"
    and rows: "list_all (\<lambda>a. a < length (rowArrays s)) rows" by simp_all
  from rows have "list_all (\<lambda>a. a < length (rowArrays ?s1)) rows"
    by (auto simp: list_all_iff)
  from Cons.IH [OF this]
  have "copyRows_st ?s1 rows =
     Inr ([length (rowArrays ?s1) ..< length (rowArrays ?s1) + length rows],
          ?s1\<lparr>rowArrays := rowArrays ?s1 @ map (\<lambda>a. rowArrays ?s1 ! a) rows\<rparr>)" .
  moreover have "map (\<lambda>a. rowArrays ?s1 ! a) rows = map (\<lambda>a. rowArrays s ! a) rows"
    using rows by (auto simp: list_all_iff nth_append)
  ultimately have IH2: "copyRows_st ?s1 rows =
     Inr ([Suc (length (rowArrays s)) ..< Suc (length (rowArrays s)) + length rows],
          s\<lparr>rowArrays := rowArrays s @ rowArrays s ! row # map (\<lambda>a. rowArrays s ! a) rows\<rparr>)"
    by simp
  have upteq: "[length (rowArrays s) ..< length (rowArrays s) + length (row # rows)]
        = length (rowArrays s) # [Suc (length (rowArrays s)) ..< Suc (length (rowArrays s)) + length rows]"
  proof -
    have "length (rowArrays s) < length (rowArrays s) + length (row # rows)" by simp
    then have "[length (rowArrays s) ..< length (rowArrays s) + length (row # rows)]
        = length (rowArrays s) # [Suc (length (rowArrays s)) ..< length (rowArrays s) + length (row # rows)]"
      by (rule upt_conv_Cons)
    moreover have "length (rowArrays s) + length (row # rows) = Suc (length (rowArrays s)) + length rows"
      by simp
    ultimately show ?thesis by (simp only:)
  qed
  show ?case unfolding upteq using row IH2 by simp
qed

lemma map_nth_append_upt:
  "map (\<lambda>a. (xs @ ys) ! a) [length xs ..< length xs + length ys] = ys"
  by (rule nth_equalityI) (simp_all add: nth_append)

lemma load_fresh:
  assumes "boardArrays s ! m = [length xs ..< length xs + length ys]"
    and "rowArrays s = xs @ ys"
  shows "load s m = JArr (map JArr ys)"
proof -
  have "map (\<lambda>a. JArr ((xs @ ys) ! a)) [length xs ..< length xs + length ys]
          = map JArr (map (\<lambda>a. (xs @ ys) ! a) [length xs ..< length xs + length ys])"
    by (simp add: comp_def)
  also have "\<dots> = map JArr ys" by (simp only: map_nth_append_upt)
  finally show ?thesis using assms by (simp add: load_def)
qed

lemma copyBoard_load:
  "copyBoard (load s board) = Inr (map (\<lambda>a. rowArrays s ! a) (boardArrays s ! board))"
proof -
  have "spreadAll (map (\<lambda>a. JArr (rowArrays s ! a)) rows) = Inr (map (\<lambda>a. rowArrays s ! a) rows)"
    for rows
    by (induction rows) simp_all
  then show ?thesis by (simp add: copyBoard_def load_def)
qed

lemma movesOfBlock_st_refines:
  assumes al: "allocated s board"
  shows "case movesOfBlock_st s board block of
           Inl e \<Rightarrow> movesOfBlock (load s board) block = Inl e
         | Inr (ms, s') \<Rightarrow> movesOfBlock (load s board) block = Inr ms \<and> extends s s'"
proof -
  obtain r c where b: "block = (r, c)" by (cases block)
  let ?rows = "boardArrays s ! board"
  let ?R = "map (\<lambda>a. rowArrays s ! a) ?rows"
  let ?n = "length (rowArrays s)"
  let ?m = "length (boardArrays s)"
  let ?s1 = "s\<lparr>rowArrays := rowArrays s @ ?R,
               boardArrays := boardArrays s @ [[?n ..< ?n + length ?rows]]\<rparr>"
  from al have bd: "board < ?m" and ar: "list_all (\<lambda>a. a < ?n) ?rows"
    by (simp_all add: allocated_def)
  have cp: "copyBoard_st s board = Inr (?m, ?s1)"
    using bd copyRows_st_allocated [OF ar] by (simp add: copyBoard_st_def)
  note pcp = copyBoard_load [of s board]
  show ?thesis
  proof (cases "0 \<le> r \<and> nat r < length ?rows")
    case False
    then have "clearCell_st ?s1 ?m r c = Inl TypeError"
      by (auto simp: clearCell_st_def)
    moreover have "clearCell ?R r c = Inl TypeError"
      using False by (auto simp: clearCell_def)
    ultimately show ?thesis using cp pcp b
      by (simp add: movesOfBlock_st_def movesOfBlock_def)
  next
    case True
    let ?R' = "?R[nat r := arrSet (?R ! nat r) c (JNum 0)]"
    let ?s2 = "?s1\<lparr>rowArrays := rowArrays s @ ?R'\<rparr>"
    have nth: "(rowArrays s @ ?R) ! (?n + nat r) = ?R ! nat r" by (simp add: nth_append)
    have upd: "(rowArrays s @ ?R)[?n + nat r := x] = rowArrays s @ ?R[nat r := x]" for x
      by (simp add: list_update_append)
    have cl: "clearCell_st ?s1 ?m r c = Inr ?s2"
      using True nth upd by (simp add: clearCell_st_def nth_append)
    have pcl: "clearCell ?R r c = Inr (JArr (map JArr ?R'))"
      using True by (simp add: clearCell_def)
    have ld: "load ?s2 ?m = JArr (map JArr ?R')"
      by (rule load_fresh) simp_all
    have ext: "extends s ?s2" by (simp add: extends_def)
    show ?thesis
      using cp cl ld pcp pcl ext b
      by (simp add: movesOfBlock_st_def movesOfBlock_def split: sum.splits)
  qed
qed

lemma movesLoop_st_refines:
  "allocated s board \<Longrightarrow>
   (case movesLoop_st s board blocks allMoves of
      Inl e \<Rightarrow> movesLoop (load s board) blocks allMoves = Inl e
    | Inr (ms, s') \<Rightarrow> movesLoop (load s board) blocks allMoves = Inr ms \<and> extends s s')"
proof (induction blocks arbitrary: s allMoves)
  case Nil
  then show ?case by (simp add: extends_refl)
next
  case (Cons block rest)
  note ref = movesOfBlock_st_refines [OF Cons.prems, of block]
  show ?case
  proof (cases "movesOfBlock_st s board block")
    case (Inl e)
    with ref show ?thesis by simp
  next
    case (Inr res)
    obtain ms s1 where res: "res = (ms, s1)" by (cases res)
    from ref Inr res have pm: "movesOfBlock (load s board) block = Inr ms"
      and ext: "extends s s1" by simp_all
    have al1: "allocated s1 board" by (rule extends_allocated [OF ext Cons.prems])
    have ld1: "load s1 board = load s board" by (rule extends_load [OF ext Cons.prems])
    from Cons.IH [OF al1, of "allMoves @ ms"] ld1 ext
    have "case movesLoop_st s1 board rest (allMoves @ ms) of
            Inl e \<Rightarrow> movesLoop (load s board) rest (allMoves @ ms) = Inl e
          | Inr (ms', s') \<Rightarrow> movesLoop (load s board) rest (allMoves @ ms) = Inr ms'
                \<and> extends s s'"
      by (auto split: sum.splits intro: extends_trans)
    with Inr res pm show ?thesis by (auto split: sum.splits)
  qed
qed

lemma findAllValidMoves_st_refines:
  assumes "allocated s board"
  shows "case findAllValidMoves_st s board of
           Inl e \<Rightarrow> findAllValidMoves (load s board) = Inl e
         | Inr (ms, s') \<Rightarrow> findAllValidMoves (load s board) = Inr ms \<and> extends s s'"
proof (cases "findBlocks (load s board)")
  case (Inl e)
  then show ?thesis by (simp add: findAllValidMoves_st_def findAllValidMoves_def)
next
  case (Inr blocks)
  with movesLoop_st_refines [OF assms, of blocks "[]"] show ?thesis
    by (auto simp: findAllValidMoves_st_def findAllValidMoves_def split: sum.splits)
qed

section \<open>Totality of the validation, and the count from any start\<close>

lemma validateBoard_total: "\<exists>v. validateBoard board = Inr v"
proof (cases "wellShaped board")
  case True
  then show ?thesis by (simp add: validateBoard_wellShaped)
next
  case False
  then show ?thesis by (simp add: validateBoard_malformed)
qed

lemma connectedShape_decide:
  assumes "wellShaped board" "findBlocks board = Inr blocks"
    "countConnectedBlocks board (firstBlock blocks) = Inr n"
  shows "connectedShape board \<longleftrightarrow> n = length blocks"
  using count_matches_connected [OF assms(1,2)] assms(3) by auto

lemma reachable_split:
  "reachable board s =
     (if s \<in> blockSet board then reachableBlocks board s
      else insert s (reachableBlocks board s))"
proof -
  have "q \<in> reachable board s \<Longrightarrow> q = s \<or> q \<in> reachableBlocks board s" for q
    unfolding reachable_def reachableBlocks_def
    by (auto elim: rtranclE dest: edges_target)
  moreover have "reachableBlocks board s \<subseteq> reachable board s"
    by (auto simp: reachable_def reachableBlocks_def)
  moreover have "s \<in> blockSet board \<Longrightarrow> s \<in> reachableBlocks board s"
    by (simp add: reachableBlocks_def)
  ultimately show ?thesis using reachable_self [of s board] by auto
qed

lemma finite_reachableBlocks: "finite (reachableBlocks board s)"
  by (rule finite_subset [OF _ finite_blockSet]) (auto simp: reachableBlocks_def)

lemma card_reachable:
  "card (reachable board s) =
     (if s \<in> blockSet board then card (reachableBlocks board s)
      else 1 + card (reachableBlocks board s))"
proof (cases "s \<in> blockSet board")
  case True
  then show ?thesis by (simp add: reachable_split)
next
  case False
  then have "s \<notin> reachableBlocks board s" by (simp add: reachableBlocks_def)
  then show ?thesis using False finite_reachableBlocks [of board s]
    by (simp add: reachable_split)
qed

section \<open>The example boards, evaluated\<close>

lemma lineBoard_wellShaped: "wellShaped lineBoard"
  by code_simp

lemma lineBoard_valid: "validateBoard lineBoard = Inr None"
  by code_simp

lemma lineBoard_moves: "findAllValidMoves lineBoard = Inr lineMoves"
  by code_simp

lemma lineBoard_block: "(0, 0) \<in> blockSet lineBoard"
  by (simp add: blockSet_def validCoords_def BOARD_SIZE_def cellv_def lineBoard_def fullRow_def)


lemma lineBoard_clear_middle:
  "wellShaped (putCell lineBoard (0, 4) (JNum 0))"
  "findBlocks (putCell lineBoard (0, 4) (JNum 0)) =
     Inr [(0, 0), (0, 1), (0, 2), (0, 3), (0, 5), (0, 6), (0, 7), (0, 8), (0, 9)]"
  "countConnectedBlocks (putCell lineBoard (0, 4) (JNum 0)) (Some (0, 0)) = Inr 4"
  by code_simp+

lemma twoGroups_facts:
  "wellShaped twoGroups"
  "findBlocks twoGroups =
     Inr [(0, 0), (0, 1), (0, 2), (0, 3), (0, 4), (2, 0), (2, 1), (2, 2), (2, 3), (2, 4)]"
  "countConnectedBlocks twoGroups (Some (0, 0)) = Inr 5"
  by code_simp+

lemma nineBoard_facts:
  "wellShaped nineBoard"
  "findBlocks nineBoard =
     Inr [(0, 0), (0, 1), (0, 2), (0, 3), (0, 4), (0, 5), (0, 6), (0, 7), (0, 8)]"
  by code_simp+

lemma lineStore_facts:
  "allocated lineStore 0" "load lineStore 0 = lineBoard"
  by code_simp+

section \<open>The claims\<close>

text \<open>
  C1 (closure). For every grid \<open>G\<close> that passes \<open>validateBoard\<close>, the enumeration returns,
  and for every move \<open>m\<close> it returns and every destination \<open>d\<close> of \<open>m\<close>, the grid
  obtained from \<open>G\<close> by clearing the source of \<open>m\<close> and setting \<open>d\<close> passes
  \<open>validateBoard\<close> again.
\<close>

theorem move_closure:
  assumes "validateBoard G = Inr None"
  shows "\<exists>ms. findAllValidMoves G = Inr ms
           \<and> (\<forall>m \<in> set ms. \<forall>d \<in> set (moveTo m).
                 validateBoard (applyMove G (moveFrom m) d) = Inr None)"
proof -
  from assms have "wellShaped G" by (simp add: validateBoard_valid_iff)
  from findAllValidMoves_wellShaped [OF this] obtain ms
    where ms: "findAllValidMoves G = Inr ms" "\<forall>m \<in> set ms. legalMove G m" by blast
  from ms(2) have "\<forall>m \<in> set ms. \<forall>d \<in> set (moveTo m).
      validateBoard (applyMove G (moveFrom m) d) = Inr None"
    by (auto intro: legalMove_closure [OF assms])
  with ms(1) show ?thesis by blast
qed

theorem move_closure_witness:
  "validateBoard lineBoard = Inr None
   \<and> findAllValidMoves lineBoard = Inr lineMoves
   \<and> validateBoard (applyMove lineBoard (0, 0) (1, 1)) = Inr None
   \<and> validateBoard (applyMove lineBoard (0, 9) (1, 0)) = Inr None"
proof -
  from move_closure [OF lineBoard_valid] lineBoard_moves
  have "\<forall>m \<in> set lineMoves. \<forall>d \<in> set (moveTo m).
          validateBoard (applyMove lineBoard (moveFrom m) d) = Inr None"
    by simp
  then show ?thesis using lineBoard_valid lineBoard_moves by (simp add: lineMoves_def)
qed

text \<open>
  C2. The claim: \<open>validateBoard\<close> returns no error only if every cell is strictly 0 or 1,
  and a grid of the right size with a cell that is neither is rejected as malformed. The
  code has no such test: the line with the number 2 in one further cell is of the right
  size, holds a cell that is neither 0 nor 1, and is accepted.
\<close>

theorem nonbinary_board_accepted:
  "wellShaped nonBinaryBoard
   \<and> getCell nonBinaryBoard 5 5 = Inr (JNum 2)
   \<and> validateBoard nonBinaryBoard = Inr None"
  by code_simp

theorem nonbinary_board_accepted_witness:
  "validateBoard nonBinaryBoard \<noteq> Inr (Some MalformedShape)"
  using nonbinary_board_accepted by simp

text \<open>
  C3, as stated: no move of a valid grid has a destination that is marked in the grid.
  On the line, the move of the block at (0,0) lists (0,0) itself, which is marked.
\<close>

theorem destination_unmarked_counterexample:
  "validateBoard lineBoard = Inr None
   \<and> findAllValidMoves lineBoard = Inr lineMoves
   \<and> moveFrom (lineMoves ! 0) = (0, 0)
   \<and> (0, 0) \<in> set (moveTo (lineMoves ! 0))
   \<and> (0, 0) \<in> blockSet lineBoard"
  using lineBoard_valid lineBoard_moves lineBoard_block by (simp add: lineMoves_def)

text \<open>
  C3, amended. For every grid \<open>G\<close> that passes \<open>validateBoard\<close>, every move returned has
  a source that is marked in \<open>G\<close>, and each of its destinations is either empty in \<open>G\<close>
  or the source of that same move (the cell that is empty on the working copy).
\<close>

theorem moves_source_marked_destination_empty:
  assumes "validateBoard G = Inr None"
  shows "\<exists>ms. findAllValidMoves G = Inr ms
           \<and> (\<forall>m \<in> set ms. moveFrom m \<in> blockSet G
                 \<and> (\<forall>d \<in> set (moveTo m). d = moveFrom m \<or> d \<in> emptySet G))"
proof -
  from assms have ws: "wellShaped G" by (simp add: validateBoard_valid_iff)
  from findAllValidMoves_wellShaped [OF ws] obtain ms
    where ms: "findAllValidMoves G = Inr ms" "\<forall>m \<in> set ms. legalMove G m" by blast
  have "moveFrom m \<in> blockSet G \<and> (\<forall>d \<in> set (moveTo m). d = moveFrom m \<or> d \<in> emptySet G)"
    if "m \<in> set ms" for m
  proof -
    from that ms(2) have lm: "legalMove G m" by simp
    then have src: "moveFrom m \<in> blockSet G"
      and dst: "set (moveTo m) = destSet (putCell G (moveFrom m) (JNum 0))"
      by (simp_all add: legalMove_def)
    from src have sv: "moveFrom m \<in> validCoords" by (simp add: blockSet_def)
    have "d = moveFrom m \<or> d \<in> emptySet G" if "d \<in> set (moveTo m)" for d
    proof -
      from that dst have "d \<in> emptySet (putCell G (moveFrom m) (JNum 0))"
        by (simp add: destSet_def)
      then have dv: "d \<in> validCoords" and "cellv (putCell G (moveFrom m) (JNum 0)) d = JNum 0"
        by (simp_all add: emptySet_def)
      then show ?thesis using cellv_putCell [OF ws sv dv]
        by (auto simp: emptySet_def split: if_splits)
    qed
    with src show ?thesis by blast
  qed
  with ms(1) show ?thesis by blast
qed

theorem moves_source_marked_destination_empty_witness:
  "validateBoard lineBoard = Inr None
   \<and> findAllValidMoves lineBoard = Inr lineMoves
   \<and> (0, 9) \<in> blockSet lineBoard
   \<and> (1, 0) \<in> emptySet lineBoard"
proof -
  from moves_source_marked_destination_empty [OF lineBoard_valid] lineBoard_moves
  have "\<forall>m \<in> set lineMoves. moveFrom m \<in> blockSet lineBoard
          \<and> (\<forall>d \<in> set (moveTo m). d = moveFrom m \<or> d \<in> emptySet lineBoard)"
    by simp
  then show ?thesis using lineBoard_valid lineBoard_moves by (simp add: lineMoves_def)
qed

text \<open>
  C4, as stated: \<open>countConnectedBlocks\<close> returns 0 when the start cell is unmarked. On
  the line, the cell (1,0) is unmarked, and the count from it is 11: the start itself
  and the ten blocks reached through its neighbour (0,0).
\<close>

theorem unmarked_start_counterexample:
  "cellv lineBoard (1, 0) = JNum 0
   \<and> countConnectedBlocks lineBoard (Some (1, 0)) = Inr 11"
  by code_simp

text \<open>
  C4, amended. On every grid of the fixed size, \<open>countConnectedBlocks\<close> returns 0 when
  the start cell is absent; from a marked start cell it returns the number of marked
  cells that are edge-reachable from the start via marked cells; from an unmarked start
  cell it returns one more than the number of marked cells reachable from it, the
  start being counted without being tested.
\<close>

theorem countConnectedBlocks_result:
  assumes "wellShaped board"
  shows "countConnectedBlocks board None = Inr 0
       \<and> countConnectedBlocks board (Some s) =
           Inr (if s \<in> blockSet board then card (reachableBlocks board s)
                else 1 + card (reachableBlocks board s))"
  using countConnectedBlocks_wellShaped [OF assms, of s]
  by (simp add: card_reachable countConnectedBlocks_def)

theorem countConnectedBlocks_result_witness:
  "wellShaped lineBoard
   \<and> countConnectedBlocks lineBoard None = Inr 0
   \<and> card (reachableBlocks lineBoard (0, 0)) = 10
   \<and> card (reachableBlocks lineBoard (1, 0)) = 10"
proof -
  have a: "countConnectedBlocks lineBoard (Some (0, 0)) = Inr 10"
    and b: "countConnectedBlocks lineBoard (Some (1, 0)) = Inr 11"
    by code_simp+
  have nb: "(1, 0) \<notin> blockSet lineBoard"
    by (simp add: blockSet_def cellv_def lineBoard_def emptyRow_def)
  from countConnectedBlocks_result [OF lineBoard_wellShaped, of "(0, 0)"] a lineBoard_block
  have "card (reachableBlocks lineBoard (0, 0)) = 10" by simp
  moreover
  from countConnectedBlocks_result [OF lineBoard_wellShaped, of "(1, 0)"] b nb
  have "card (reachableBlocks lineBoard (1, 0)) = 10" by simp
  ultimately show ?thesis
    using lineBoard_wellShaped by (simp add: countConnectedBlocks_def)
qed

text \<open>
  C5, as stated: on the line the move of (0,0) includes the destination (1,0) and the
  move of (0,9) includes (1,9). Neither does: with (0,0) lifted, (1,0) touches no block.
\<close>

theorem line_destinations_counterexample:
  "findAllValidMoves lineBoard = Inr lineMoves
   \<and> moveFrom (lineMoves ! 0) = (0, 0) \<and> (1, 0) \<notin> set (moveTo (lineMoves ! 0))
   \<and> moveFrom (lineMoves ! 1) = (0, 9) \<and> (1, 9) \<notin> set (moveTo (lineMoves ! 1))"
  using lineBoard_moves by (simp add: lineMoves_def)

text \<open>
  C5, amended. On the grid whose only marked cells are those of row 0, \<open>validateBoard\<close>
  returns no error, and \<open>findAllValidMoves\<close> returns exactly two moves, one for each
  endpoint: from (0,0) to (0,0) itself or to one of (1,1), ..., (1,9), and from (0,9)
  to (0,9) itself or to one of (1,0), ..., (1,8). No interior cell has a move.
\<close>

theorem line_scenario:
  "validateBoard lineBoard = Inr None
   \<and> findAllValidMoves lineBoard =
       Inr [Move (0, 0) [(1, 1), (0, 0), (1, 2), (1, 3), (1, 4), (1, 5), (1, 6), (1, 7),
                         (1, 8), (1, 9)],
            Move (0, 9) [(1, 0), (1, 1), (1, 2), (1, 3), (1, 4), (1, 5), (1, 6), (1, 7),
                         (1, 8), (0, 9)]]"
  by code_simp

theorem line_scenario_witness:
  "(case findAllValidMoves lineBoard of Inl e \<Rightarrow> [] | Inr ms \<Rightarrow> map moveFrom ms)
     = [(0, 0), (0, 9)]"
  using line_scenario by simp

text \<open>
  C6. For every grid \<open>G\<close> that passes \<open>validateBoard\<close>, an articulation cell of \<open>G\<close> is
  the source of no move that \<open>findAllValidMoves\<close> returns.
\<close>

theorem articulation_no_move:
  assumes "validateBoard G = Inr None" and "articulation G b"
  shows "\<exists>ms. findAllValidMoves G = Inr ms \<and> b \<notin> set (map moveFrom ms)"
proof -
  from assms(1) have "wellShaped G" by (simp add: validateBoard_valid_iff)
  from findAllValidMoves_wellShaped [OF this] obtain ms
    where ms: "findAllValidMoves G = Inr ms" "\<forall>m \<in> set ms. legalMove G m" by blast
  have "moveFrom m \<noteq> b" if "m \<in> set ms" for m
    using that ms(2) assms(2) by (auto simp: legalMove_def articulation_def)
  with ms(1) show ?thesis by auto
qed

theorem articulation_no_move_witness:
  "validateBoard lineBoard = Inr None
   \<and> articulation lineBoard (0, 4)
   \<and> findAllValidMoves lineBoard = Inr lineMoves
   \<and> (0, 4) \<notin> set (map moveFrom lineMoves)"
proof -
  have "\<not> connectedShape (putCell lineBoard (0, 4) (JNum 0))"
    using connectedShape_decide [OF lineBoard_clear_middle(1,2), of 4] lineBoard_clear_middle(3)
    by (simp add: firstBlock_def)
  moreover have "(0, 4) \<in> blockSet lineBoard"
    by (simp add: blockSet_def validCoords_def BOARD_SIZE_def cellv_def lineBoard_def
        fullRow_def)
  ultimately have art: "articulation lineBoard (0, 4)" by (simp add: articulation_def)
  from articulation_no_move [OF lineBoard_valid art] lineBoard_moves
  have "(0, 4) \<notin> set (map moveFrom lineMoves)" by simp
  with art lineBoard_valid lineBoard_moves show ?thesis by simp
qed

text \<open>
  C7. Every grid that passes \<open>validateBoard\<close> has exactly \<open>BLOCK_COUNT\<close> = 10 marked
  cells, and \<open>findBlocks\<close> lists exactly these cells, each once, so its result has
  length 10. A grid of the fixed size with nine marked cells is rejected with the
  message of the wrong block count.
\<close>

theorem valid_block_count:
  "(validateBoard G = Inr None \<longrightarrow>
      card (blockSet G) = BLOCK_COUNT
      \<and> (\<exists>blocks. findBlocks G = Inr blocks \<and> distinct blocks
             \<and> set blocks = blockSet G \<and> length blocks = BLOCK_COUNT))
   \<and> (wellShaped H \<and> card (blockSet H) = 9 \<longrightarrow>
        validateBoard H = Inr (Some WrongBlockCount))"
proof (intro conjI impI)
  assume v: "validateBoard G = Inr None"
  then have ws: "wellShaped G" and card: "card (blockSet G) = BLOCK_COUNT"
    by (simp_all add: validateBoard_valid_iff)
  show "card (blockSet G) = BLOCK_COUNT" by (rule card)
  obtain blocks where fb: "findBlocks G = Inr blocks"
    using findBlocks_wellShaped [OF ws] by blast
  from findBlocks_set [OF ws fb] card
  have "distinct blocks \<and> set blocks = blockSet G \<and> length blocks = BLOCK_COUNT" by simp
  with fb show "\<exists>blocks. findBlocks G = Inr blocks \<and> distinct blocks
      \<and> set blocks = blockSet G \<and> length blocks = BLOCK_COUNT" by blast
next
  assume h: "wellShaped H \<and> card (blockSet H) = 9"
  then show "validateBoard H = Inr (Some WrongBlockCount)"
    by (simp add: validateBoard_wellShaped BLOCK_COUNT_def)
qed

theorem valid_block_count_witness:
  "validateBoard lineBoard = Inr None
   \<and> card (blockSet lineBoard) = BLOCK_COUNT
   \<and> (\<exists>blocks. findBlocks lineBoard = Inr blocks \<and> distinct blocks
          \<and> set blocks = blockSet lineBoard \<and> length blocks = BLOCK_COUNT)
   \<and> wellShaped nineBoard
   \<and> card (blockSet nineBoard) = 9
   \<and> validateBoard nineBoard = Inr (Some WrongBlockCount)"
proof -
  have nine: "card (blockSet nineBoard) = 9"
    using findBlocks_set [OF nineBoard_facts] by simp
  from valid_block_count [of lineBoard nineBoard] lineBoard_valid nineBoard_facts(1) nine
  show ?thesis by simp
qed

text \<open>
  C8. Every grid of the fixed size with exactly ten marked cells that do not all lie in
  one component is rejected with the message of the disconnected shape; so are two
  separate groups of five blocks.
\<close>

theorem disconnected_rejected:
  assumes "wellShaped G" and "card (blockSet G) = BLOCK_COUNT" and "\<not> connectedShape G"
  shows "validateBoard G = Inr (Some Disconnected)"
  using assms by (simp add: validateBoard_wellShaped)

theorem disconnected_rejected_witness:
  "wellShaped twoGroups
   \<and> card (blockSet twoGroups) = BLOCK_COUNT
   \<and> \<not> connectedShape twoGroups
   \<and> validateBoard twoGroups = Inr (Some Disconnected)"
proof -
  have c: "card (blockSet twoGroups) = BLOCK_COUNT"
    using findBlocks_set [OF twoGroups_facts(1,2)] by (simp add: BLOCK_COUNT_def)
  have n: "\<not> connectedShape twoGroups"
    using connectedShape_decide [OF twoGroups_facts(1,2), of 5] twoGroups_facts(3)
    by (simp add: firstBlock_def)
  from disconnected_rejected [OF twoGroups_facts(1) c n] c n twoGroups_facts(1)
  show ?thesis by simp
qed

text \<open>
  C9. \<open>validateBoard\<close> and \<open>findAllValidMoves\<close> leave the caller's grid unchanged. On
  the store: validation returns with the store it was given; whenever the enumeration
  returns, every array that existed before is still there with the same elements, so
  the caller's board denotes the same grid as before; and on a valid grid the
  enumeration does return, with the moves that the value-level function computes.
\<close>

theorem input_grid_unchanged:
  assumes "allocated s board"
  shows "(\<exists>v. validateBoard_st s board = Inr (v, s))
       \<and> (\<forall>ms s'. findAllValidMoves_st s board = Inr (ms, s') \<longrightarrow>
             extends s s' \<and> load s' board = load s board)
       \<and> (validateBoard (load s board) = Inr None \<longrightarrow>
             (\<exists>ms s'. findAllValidMoves_st s board = Inr (ms, s')
                 \<and> findAllValidMoves (load s board) = Inr ms))"
proof (intro conjI allI impI)
  from validateBoard_total [of "load s board"]
  show "\<exists>v. validateBoard_st s board = Inr (v, s)"
    by (auto simp: validateBoard_st_def)
next
  fix ms s' assume r: "findAllValidMoves_st s board = Inr (ms, s')"
  with findAllValidMoves_st_refines [OF assms] have "extends s s'" by simp
  then show "extends s s'" "load s' board = load s board"
    using extends_load [OF _ assms] by simp_all
next
  assume "validateBoard (load s board) = Inr None"
  then have "wellShaped (load s board)" by (simp add: validateBoard_valid_iff)
  from findAllValidMoves_wellShaped [OF this] obtain ms
    where ms: "findAllValidMoves (load s board) = Inr ms" by blast
  show "\<exists>ms s'. findAllValidMoves_st s board = Inr (ms, s')
          \<and> findAllValidMoves (load s board) = Inr ms"
  proof (cases "findAllValidMoves_st s board")
    case (Inl e)
    with findAllValidMoves_st_refines [OF assms] ms show ?thesis by simp
  next
    case (Inr res)
    with findAllValidMoves_st_refines [OF assms] show ?thesis by (cases res) auto
  qed
qed

theorem input_grid_unchanged_witness:
  "allocated lineStore 0
   \<and> load lineStore 0 = lineBoard
   \<and> validateBoard_st lineStore 0 = Inr (None, lineStore)
   \<and> (\<exists>s'. findAllValidMoves_st lineStore 0 = Inr (lineMoves, s')
          \<and> extends lineStore s' \<and> load s' 0 = lineBoard)"
proof -
  note u = input_grid_unchanged [OF lineStore_facts(1)]
  from u lineStore_facts(2) lineBoard_valid lineBoard_moves
  obtain s' where r: "findAllValidMoves_st lineStore 0 = Inr (lineMoves, s')" by auto
  with u lineStore_facts(2) have "extends lineStore s'" "load s' 0 = lineBoard" by auto
  with r have "\<exists>s'. findAllValidMoves_st lineStore 0 = Inr (lineMoves, s')
          \<and> extends lineStore s' \<and> load s' 0 = lineBoard" by blast
  moreover have "validateBoard_st lineStore 0 = Inr (None, lineStore)"
    using lineStore_facts(2) lineBoard_valid by (simp add: validateBoard_st_def)
  ultimately show ?thesis using lineStore_facts by simp
qed

text \<open>
  C10. For every grid \<open>G\<close> that passes \<open>validateBoard\<close>, every move that
  \<open>findAllValidMoves\<close> returns lists its own source cell among its destinations.
\<close>

theorem source_among_destinations:
  assumes "validateBoard G = Inr None"
  shows "\<exists>ms. findAllValidMoves G = Inr ms
           \<and> (\<forall>m \<in> set ms. moveFrom m \<in> set (moveTo m))"
proof -
  from assms have "wellShaped G" by (simp add: validateBoard_valid_iff)
  from findAllValidMoves_wellShaped [OF this] obtain ms
    where ms: "findAllValidMoves G = Inr ms" "\<forall>m \<in> set ms. legalMove G m" by blast
  from ms(2) have "\<forall>m \<in> set ms. moveFrom m \<in> set (moveTo m)"
    by (auto intro: legalMove_source_offered [OF assms])
  with ms(1) show ?thesis by blast
qed

theorem source_among_destinations_witness:
  "validateBoard lineBoard = Inr None
   \<and> findAllValidMoves lineBoard = Inr lineMoves
   \<and> (0, 9) \<in> set (moveTo (lineMoves ! 1))"
proof -
  from source_among_destinations [OF lineBoard_valid] lineBoard_moves
  have "\<forall>m \<in> set lineMoves. moveFrom m \<in> set (moveTo m)" by simp
  then have "moveFrom (lineMoves ! 1) \<in> set (moveTo (lineMoves ! 1))"
    by (simp add: lineMoves_def)
  then show ?thesis using lineBoard_valid lineBoard_moves by (simp add: lineMoves_def)
qed

end
